theory Spec2Isabelle
  imports Main "HOL-Library.Word"
begin

unbundle bit_operations_syntax

section \<open>Bytes, strings and machine integers\<close>

text \<open>
  Go's \<open>byte\<close> is an 8-bit word, \<open>uint32\<close> and \<open>uint64\<close> are words of their width,
  and a \<open>[]byte\<close> is a list of bytes. A Go \<open>string\<close> is a sequence of bytes as well; it is
  kept as an Isabelle \<open>string\<close> and converted where the code writes it to a buffer
  (\<open>buf.WriteString\<close>) or builds it from one (\<open>string(buf)\<close>). Lengths (\<open>len\<close>) are
  natural numbers; every narrowing conversion (\<open>byte(len(s))\<close>, \<open>uint16(len(s))\<close>) is
  written as the conversion \<open>word_of_nat\<close>, which wraps.
\<close>

type_synonym byte = "8 word"
type_synonym bytes = "byte list"
type_synonym uint32 = "32 word"
type_synonym uint64 = "64 word"

definition byte_of_char :: "char \<Rightarrow> byte" where
  "byte_of_char c = word_of_nat (of_char c)"

definition char_of_byte :: "byte \<Rightarrow> char" where
  "char_of_byte b = char_of (unat b)"

definition bytes_of_string :: "string \<Rightarrow> bytes" where
  "bytes_of_string s = map byte_of_char s"

definition string_of_bytes :: "bytes \<Rightarrow> string" where
  "string_of_bytes bs = map char_of_byte bs"

text \<open>\<open>binary.BigEndian.PutUint32\<close>, \<open>PutUint16\<close>.\<close>

definition be32 :: "uint32 \<Rightarrow> bytes" where
  "be32 w = [ucast (drop_bit 24 w), ucast (drop_bit 16 w), ucast (drop_bit 8 w), ucast w]"

definition be16 :: "16 word \<Rightarrow> bytes" where
  "be16 w = [ucast (drop_bit 8 w), ucast w]"

section \<open>Protobuf subset (src/internal/core/qrcode.go)\<close>

subsection \<open>Varints\<close>

text \<open>
  \<open>encodeVarint\<close>: the loop \<open>for n > 0\<close> appends one byte per round to \<open>buf\<close>; it ends
  because \<open>n >>= 7\<close> makes a non-zero \<open>n\<close> smaller.
\<close>

function encodeVarint_loop :: "uint64 \<Rightarrow> bytes \<Rightarrow> bytes" where
  "encodeVarint_loop n buf =
     (if n > 0 then
        (let b = (ucast (n AND 0x7F) :: byte);
             n' = drop_bit 7 n;
             b' = (if n' > 0 then b OR 0x80 else b)
         in encodeVarint_loop n' (buf @ [b']))
      else buf)"
  by pat_completeness auto
termination
proof (relation "measure (\<lambda>(n, buf). unat n)", goal_cases)
  case 1
  show ?case by simp
next
  case (2 n buf x xa xb)
  have "unat (drop_bit 7 n) = unat n div 2 ^ 7"
    by (simp add: unat_drop_bit_eq drop_bit_eq_div unat_div)
  moreover have "unat n \<noteq> 0"
    using 2(1) by (simp add: unat_gt_0 word_greater_zero_iff)
  ultimately show ?case
    using 2 by simp
qed

declare encodeVarint_loop.simps [simp del]

definition encodeVarint :: "uint64 \<Rightarrow> bytes" where
  "encodeVarint n = (if n = 0 then [0] else encodeVarint_loop n [])"

text \<open>
  \<open>decodeVarint\<close>: \<open>for i, b := range data\<close> with the accumulators \<open>n\<close> and \<open>shift\<close>.
  The result \<open>(0, 0)\<close> stands for both failures of the source (overflow, and input that
  ends before a byte without continuation bit).
\<close>

fun decodeVarint_loop :: "bytes \<Rightarrow> uint64 \<Rightarrow> nat \<Rightarrow> nat \<Rightarrow> uint64 \<times> nat" where
  "decodeVarint_loop [] n shift i = (0, 0)"
| "decodeVarint_loop (b # bs) n shift i =
     (let n' = n OR push_bit shift (ucast (b AND 0x7F))
      in if b < 0x80 then (n', i + 1)
         else if shift + 7 \<ge> 64 then (0, 0)
         else decodeVarint_loop bs n' (shift + 7) (i + 1))"

definition decodeVarint :: "bytes \<Rightarrow> uint64 \<times> nat" where
  "decodeVarint data = decodeVarint_loop data 0 0 0"

subsection \<open>Fields\<close>

definition wireVarint :: uint64 where "wireVarint = 0"
definition wireFixed64 :: uint64 where "wireFixed64 = 1"
definition wireBytes :: uint64 where "wireBytes = 2"
definition wireFixed32 :: uint64 where "wireFixed32 = 5"

definition fieldClientHello :: nat where "fieldClientHello = 2"
definition fieldServerHello :: nat where "fieldServerHello = 3"
definition fieldClientFinish :: nat where "fieldClientFinish = 4"
definition fieldEphemeral :: nat where "fieldEphemeral = 1"
definition fieldStatic :: nat where "fieldStatic = 2"
definition fieldPayload :: nat where "fieldPayload = 3"

text \<open>\<open>encodeTag\<close>: \<open>uint64(fieldNum<<3 | wireType)\<close>, for the non-negative field numbers
  and wire types the code passes.\<close>

definition encodeTag :: "nat \<Rightarrow> uint64 \<Rightarrow> bytes" where
  "encodeTag fieldNum wireType = encodeVarint (push_bit 3 (word_of_nat fieldNum) OR wireType)"

definition pbEncodeBytes :: "nat \<Rightarrow> bytes \<Rightarrow> bytes" where
  "pbEncodeBytes fieldNum data =
     (if length data = 0 then []
      else encodeTag fieldNum wireBytes @ encodeVarint (word_of_nat (length data)) @ data)"

definition EncodeClientHello :: "bytes \<Rightarrow> bytes" where
  "EncodeClientHello ephemeral =
     pbEncodeBytes fieldClientHello (pbEncodeBytes fieldEphemeral ephemeral)"

definition EncodeClientFinish :: "bytes \<Rightarrow> bytes \<Rightarrow> bytes" where
  "EncodeClientFinish static payload =
     pbEncodeBytes fieldClientFinish
       (pbEncodeBytes fieldStatic static
        @ (if length payload > 0 then pbEncodeBytes fieldPayload payload else []))"

text \<open>
  \<open>findField\<close>. The position \<open>pos\<close> is a Go \<open>int\<close>: \<open>pos += int(length)\<close> adds the
  64-bit two's complement reading of the decoded length, so \<open>pos\<close> can move backwards and the
  loop need not end; the function is therefore partial, and \<open>None\<close> is "does not return".
  A slice expression with a negative or reversed bound panics, which is the value
  \<open>PanicSliceBounds\<close>.
\<close>

datatype pb_error = ErrInvalidProtobuf | ErrFieldNotFound | PanicSliceBounds

definition int64_add :: "int \<Rightarrow> uint64 \<Rightarrow> int" where
  "int64_add pos len = sint ((word_of_int pos :: uint64) + len)"

partial_function (option) findField_loop :: "bytes \<Rightarrow> int \<Rightarrow> nat \<Rightarrow> (pb_error + bytes) option" where
  "findField_loop data pos targetField =
     (if pos < int (length data) then
        (if pos < 0 then Some (Inl PanicSliceBounds)
         else
           (case decodeVarint (drop (nat pos) data) of (tag, n) \<Rightarrow>
              if n = 0 then Some (Inl ErrFieldNotFound)
              else
                (let pos1 = pos + int n;
                     fieldNum = unat (drop_bit 3 tag);
                     wireType = tag AND 0x7
                 in if wireType = wireVarint then
                      (case decodeVarint (drop (nat pos1) data) of (v, n2) \<Rightarrow>
                         if n2 = 0 then Some (Inl ErrInvalidProtobuf)
                         else findField_loop data (pos1 + int n2) targetField)
                    else if wireType = wireFixed64 then findField_loop data (pos1 + 8) targetField
                    else if wireType = wireFixed32 then findField_loop data (pos1 + 4) targetField
                    else if wireType = wireBytes then
                      (case decodeVarint (drop (nat pos1) data) of (len, n2) \<Rightarrow>
                         if n2 = 0 then Some (Inl ErrInvalidProtobuf)
                         else
                           (let pos2 = pos1 + int n2; end = int64_add pos2 len
                            in if end > int (length data) then Some (Inl ErrInvalidProtobuf)
                               else if fieldNum = targetField then
                                 (if end < pos2 then Some (Inl PanicSliceBounds)
                                  else Some (Inr (take (nat (end - pos2)) (drop (nat pos2) data))))
                               else findField_loop data end targetField))
                    else Some (Inl ErrInvalidProtobuf))))
      else Some (Inl ErrFieldNotFound))"

definition findField :: "bytes \<Rightarrow> nat \<Rightarrow> (pb_error + bytes) option" where
  "findField data targetField = findField_loop data 0 targetField"

record ServerHelloData =
  Ephemeral :: bytes
  Static :: bytes
  Payload :: bytes

text \<open>
  \<open>DecodeServerHello\<close> never returns an error of its own; only a panic or a loop of
  \<open>findField\<close> comes through. Each \<open>findField\<close> whose error is not nil is skipped.
\<close>

definition field_or :: "bytes \<Rightarrow> nat \<Rightarrow> bytes \<Rightarrow> (pb_error + bytes) option" where
  "field_or data targetField dflt =
     (case findField data targetField of
        None \<Rightarrow> None
      | Some (Inr v) \<Rightarrow> Some (Inr v)
      | Some (Inl PanicSliceBounds) \<Rightarrow> Some (Inl PanicSliceBounds)
      | Some (Inl _) \<Rightarrow> Some (Inr dflt))"

definition DecodeServerHello :: "bytes \<Rightarrow> (pb_error + ServerHelloData) option" where
  "DecodeServerHello data =
     (case field_or data fieldServerHello data of
        None \<Rightarrow> None
      | Some (Inl e) \<Rightarrow> Some (Inl e)
      | Some (Inr serverHelloBytes) \<Rightarrow>
     (case field_or serverHelloBytes fieldEphemeral [] of
        None \<Rightarrow> None
      | Some (Inl e) \<Rightarrow> Some (Inl e)
      | Some (Inr ephemeral) \<Rightarrow>
     (case field_or serverHelloBytes fieldStatic [] of
        None \<Rightarrow> None
      | Some (Inl e) \<Rightarrow> Some (Inl e)
      | Some (Inr static) \<Rightarrow>
     (case field_or serverHelloBytes fieldPayload [] of
        None \<Rightarrow> None
      | Some (Inl e) \<Rightarrow> Some (Inl e)
      | Some (Inr payload) \<Rightarrow>
          (let result = \<lparr>Ephemeral = ephemeral, Static = static, Payload = payload\<rparr>
           in if length (Ephemeral result) = 0 \<and> length data \<ge> 32 then
                Some (Inr (result\<lparr>Ephemeral := take 32 data,
                                   Static := (if length data > 32 then drop 32 data
                                              else Static result)\<rparr>))
              else Some (Inr result))))))"

declare findField_loop.simps [code]

section \<open>Binary node codec (src/unnamed/part_000)\<close>

text \<open>
  \<open>Content\<close> is the dynamic type held by the field \<open>Content interface{}\<close>: nil, a
  \<open>[]byte\<close>, a \<open>string\<close> or a \<open>[]*BinaryNode\<close>, whose elements are pointers and may be nil.
  \<open>Attrs\<close> is a Go map; it is kept as the list of its entries in the order in which
  \<open>range\<close> visits them (Go leaves that order open), so its keys are distinct and
  \<open>len(node.Attrs)\<close> is the length of the list.
\<close>

datatype Content = CNil | CBytes bytes | CString string | CNodes "BinaryNode option list"
and BinaryNode = BinaryNode (Tag: string) (Attrs: "(string \<times> string) list") (Content: Content)

definition tagDictionary :: "string list" where
  "tagDictionary =
    replicate 16 []
      @ replicate 16 []
      @ replicate 16 []
      @ [''1'', ''2'', ''3'', ''4'', ''5'']
      @ [''6'', ''7'', ''8'', ''9'', ''10'']
      @ [''11'', ''12'', ''13'', ''14'', ''15'']
      @ [''16'', ''17'', ''18'', ''19'', ''20'']
      @ [''21'', ''22'', ''23'', ''24'', ''25'']
      @ [''26'', ''27'', ''28'', ''29'', ''30'']
      @ [''account'', ''ack'', ''action'', ''active'', ''add'', ''after'', ''all'', ''allow'',
         ''and'', ''android'']
      @ [''announce'', ''archive'', ''available'', ''battery'', ''before'', ''block'',
         ''body'', ''broadcast'']
      @ [''call'', ''call-creator'', ''call-id'', ''cancel'', ''caption'', ''chat'', ''child'',
         ''clear'']
      @ [''code'', ''composing'', ''config'', ''contact'', ''contacts'', ''count'', ''create'',
         ''creator'']
      @ [''decrypt'', ''delete'', ''demote'', ''description'', ''device'', ''devices'',
         ''disappearing'']
      @ [''done'', ''download'', ''edit'', ''elapsed'', ''encoding'', ''encrypt'', ''end'',
         ''ephemeral'']
      @ [''error'', ''event'', ''exit'', ''exposure'', ''failure'', ''false'', ''fan_out'',
         ''file'']
      @ [''filename'', ''format'', ''from'', ''full'', ''g.us'', ''get'', ''gif'', ''group'',
         ''groups'']
      @ [''hash'', ''height'', ''host'', ''id'', ''image'', ''in'', ''inactive'', ''index'',
         ''info'']
      @ [''interactive'', ''invite'', ''ios'', ''iq'', ''is'', ''item'', ''items'', ''jid'',
         ''keep'']
      @ [''key'', ''keyvalue'', ''keys'', ''kind'', ''large'', ''last'', ''leave'', ''limit'']
      @ [''linked'', ''list'', ''live'', ''location'', ''locked'', ''md'', ''media'',
         ''media_type'']
      @ [''member'', ''merry'', ''message'', ''messages'', ''meta'', ''mime'', ''mirror'',
         ''mms'']
      @ [''modify'', ''msg'', ''mute'', ''name'', ''network'', ''new'', ''news'',
         ''newsletter'', ''none'']
      @ [''not'', ''notification'', ''notify'', ''number'', ''of'', ''offline'', ''opt'',
         ''order'', ''out'']
      @ [''owner'', ''paid'', ''pairing'', ''participant'', ''participants'', ''paused'',
         ''phash'']
      @ [''phone'', ''photo'', ''picture'', ''pin'', ''pinned'', ''platform'', ''pn'',
         ''preview'', ''previous'']
      @ [''primary'', ''private'', ''promote'', ''props'', ''protocol'', ''push'',
         ''pushname'', ''query'']
      @ [''quit'', ''quote'', ''rate'', ''read'', ''reason'', ''receipt'', ''received'',
         ''recipient'', ''remove'']
      @ [''removed'', ''reply'', ''report'', ''request'', ''require'', ''reset'', ''resource'',
         ''result'']
      @ [''retry'', ''revoke'', ''s.whatsapp.net'', ''screen'', ''search'', ''sec'',
         ''secret'', ''seen'']
      @ [''selected'', ''self'', ''sender'', ''serial'', ''server'', ''session'', ''set'',
         ''settings'']
      @ [''sf'', ''shake'', ''share'', ''short'', ''side'', ''sig'', ''silent'', ''size'',
         ''sky'', ''slow'']
      @ [''smax'', ''smbiz'', ''source'', ''sponsor'', ''srcjid'', ''starred'', ''start'',
         ''status'']
      @ [''sticky'', ''storage'', ''store'', ''stop'', ''subject'', ''subscribe'', ''success'',
         ''sync'']
      @ [''system'', ''t'', ''tag'', ''taken'', ''target'', ''template'', ''terminate'',
         ''text'', ''thread'']
      @ [''ticket'', ''time'', ''timestamp'', ''to'', ''token'', ''true'', ''type'',
         ''unavailable'', ''undefined'']
      @ [''unique'', ''unknown'', ''unlock'', ''unread'', ''until'', ''update'', ''upgrade'',
         ''url'', ''user'']
      @ [''users'', ''v'', ''value'', ''version'', ''video'', ''voip'', ''wa'', ''web'',
         ''webp'', ''width'']
      @ [''write'', ''xmlns'', ''xmpp'', ''you'', ''years'']"

subsection \<open>Encoding\<close>

text \<open>The loop \<open>for i, dictStr := range tagDictionary\<close> of \<open>encodeString\<close>: the first
  index whose entry equals \<open>s\<close> and is not empty.\<close>

fun dict_index :: "string list \<Rightarrow> nat \<Rightarrow> string \<Rightarrow> nat option" where
  "dict_index [] i s = None"
| "dict_index (dictStr # rest) i s =
     (if dictStr = s \<and> dictStr \<noteq> [] then Some i else dict_index rest (i + 1) s)"

definition encodeString :: "string \<Rightarrow> bytes" where
  "encodeString s =
     (case dict_index tagDictionary 0 s of
        Some i \<Rightarrow> [word_of_nat i]
      | None \<Rightarrow>
          (if length s < 128 then [word_of_nat (length s)] @ bytes_of_string s
           else [0xFD] @ be16 (word_of_nat (length s)) @ bytes_of_string s))"

definition encodeBytes :: "bytes \<Rightarrow> bytes" where
  "encodeBytes data =
     (if length data < 256 then [word_of_nat (length data)]
      else [0xFE] @ be32 (word_of_nat (length data))) @ data"

text \<open>\<open>encodeNode\<close> only appends to its buffer; the model returns what it appends.
  The argument is a pointer: \<open>None\<close> is nil.\<close>

fun encodeNode :: "BinaryNode option \<Rightarrow> bytes" where
  "encodeNode None = [0x00]"
| "encodeNode (Some (BinaryNode tag attrs content)) =
     (let numAttrs = length attrs;
          hasContent = (content \<noteq> CNil);
          descriptor = 2 * numAttrs + (if hasContent then 1 else 0)
      in [word_of_nat descriptor]
         @ encodeString tag
         @ concat (map (\<lambda>(key, val). encodeString key @ encodeString val) attrs)
         @ (case content of
              CNil \<Rightarrow> []
            | CBytes data \<Rightarrow> encodeBytes data
            | CString s \<Rightarrow> encodeString s
            | CNodes children \<Rightarrow>
                [word_of_nat (length children)] @ concat (map encodeNode children)))"

definition EncodeBinaryNode :: "BinaryNode option \<Rightarrow> bytes" where
  "EncodeBinaryNode node = encodeNode node"

subsection \<open>Decoding\<close>

text \<open>
  \<open>bytes.Reader\<close>: the data and the read position. \<open>ReadByte\<close> fails with \<open>io.EOF\<close> at
  the end; \<open>UnreadByte\<close> steps back whenever the position is not 0, whatever the last
  operation was; \<open>Read\<close> copies what is left into a zeroed buffer of the length asked for;
  \<open>binary.Read\<close> (through \<open>io.ReadFull\<close>) consumes what is left and leaves its target 0
  when fewer bytes than the target's size remain. The decoders ignore the errors of the
  last two.
\<close>

record Reader =
  r_s :: bytes
  r_i :: nat

datatype dec_error = EOF

definition NewReader :: "bytes \<Rightarrow> Reader" where
  "NewReader data = \<lparr>r_s = data, r_i = 0\<rparr>"

definition ReadByte :: "Reader \<Rightarrow> byte option \<times> Reader" where
  "ReadByte r =
     (if r_i r \<ge> length (r_s r) then (None, r)
      else (Some (r_s r ! r_i r), r\<lparr>r_i := r_i r + 1\<rparr>))"

definition UnreadByte :: "Reader \<Rightarrow> Reader" where
  "UnreadByte r = (if r_i r \<le> 0 then r else r\<lparr>r_i := r_i r - 1\<rparr>)"

definition Read :: "Reader \<Rightarrow> nat \<Rightarrow> bytes \<times> Reader" where
  "Read r n =
     (if r_i r \<ge> length (r_s r) then (replicate n 0, r)
      else
        (let got = take n (drop (r_i r) (r_s r))
         in (got @ replicate (n - length got) 0, r\<lparr>r_i := r_i r + length got\<rparr>)))"

definition readUint16 :: "Reader \<Rightarrow> nat \<times> Reader" where
  "readUint16 r =
     (let rest = drop (r_i r) (r_s r)
      in if length rest \<ge> 2 then
           (unat (rest ! 0) * 256 + unat (rest ! 1), r\<lparr>r_i := r_i r + 2\<rparr>)
         else (0, r\<lparr>r_i := r_i r + length rest\<rparr>))"

definition readUint32 :: "Reader \<Rightarrow> nat \<times> Reader" where
  "readUint32 r =
     (let rest = drop (r_i r) (r_s r)
      in if length rest \<ge> 4 then
           (unat (rest ! 0) * 16777216 + unat (rest ! 1) * 65536 + unat (rest ! 2) * 256
              + unat (rest ! 3),
            r\<lparr>r_i := r_i r + 4\<rparr>)
         else (0, r\<lparr>r_i := r_i r + length rest\<rparr>))"

definition decodeString :: "Reader \<Rightarrow> (dec_error + string) \<times> Reader" where
  "decodeString r =
     (case ReadByte r of
        (None, r1) \<Rightarrow> (Inl EOF, r1)
      | (Some b, r1) \<Rightarrow>
          if unat b < length tagDictionary \<and> tagDictionary ! unat b \<noteq> [] then
            (Inr (tagDictionary ! unat b), r1)
          else
            (case (if b = 0xFD then readUint16 r1 else (unat b, r1)) of (len, r2) \<Rightarrow>
               (case Read r2 len of (buf, r3) \<Rightarrow> (Inr (string_of_bytes buf), r3))))"

definition decodeBytes :: "Reader \<Rightarrow> (dec_error + bytes) \<times> Reader" where
  "decodeBytes r =
     (case ReadByte r of
        (None, r1) \<Rightarrow> (Inl EOF, r1)
      | (Some b, r1) \<Rightarrow>
          (case (if b = 0xFE then readUint32 r1 else (unat b, r1)) of (len, r2) \<Rightarrow>
             (case Read r2 len of (buf, r3) \<Rightarrow> (Inr buf, r3))))"

text \<open>The attribute loop \<open>for i := 0; i < numAttrs; i++\<close>; \<open>attrs[key] = val\<close> replaces
  the value of a key that is already there.\<close>

fun map_store :: "(string \<times> string) list \<Rightarrow> string \<Rightarrow> string \<Rightarrow> (string \<times> string) list" where
  "map_store [] key val = [(key, val)]"
| "map_store ((k, v) # rest) key val =
     (if k = key then (k, val) # rest else (k, v) # map_store rest key val)"

fun decodeAttrs :: "nat \<Rightarrow> Reader \<Rightarrow> (string \<times> string) list
                     \<Rightarrow> (dec_error + (string \<times> string) list) \<times> Reader" where
  "decodeAttrs 0 r attrs = (Inr attrs, r)"
| "decodeAttrs (Suc k) r attrs =
     (case decodeString r of
        (Inl e, r1) \<Rightarrow> (Inl e, r1)
      | (Inr key, r1) \<Rightarrow>
          (case decodeString r1 of
             (Inl e, r2) \<Rightarrow> (Inl e, r2)
           | (Inr val, r2) \<Rightarrow> decodeAttrs k r2 (map_store attrs key val)))"

text \<open>
  \<open>decodeNode\<close> calls itself for every child, on the reader the previous child left. The
  first argument bounds the depth of these calls: at depth 0 there is no result (\<open>None\<close>).
  A descriptor byte 0 is a nil node, returned without error.
\<close>

fun decodeNode :: "nat \<Rightarrow> Reader \<Rightarrow> ((dec_error + BinaryNode option) \<times> Reader) option"
and decodeChildren :: "nat \<Rightarrow> nat \<Rightarrow> Reader
                         \<Rightarrow> ((dec_error + BinaryNode option list) \<times> Reader) option" where
  "decodeNode 0 r = None"
| "decodeNode (Suc depth) r =
     (case ReadByte r of
        (None, r1) \<Rightarrow> Some (Inl EOF, r1)
      | (Some descriptor, r1) \<Rightarrow>
          if descriptor = 0x00 then Some (Inr None, r1)
          else
            (let numAttrs = unat (drop_bit 1 descriptor);
                 hasContent = (descriptor AND 1 = 1)
             in case decodeString r1 of
                  (Inl e, r2) \<Rightarrow> Some (Inl e, r2)
                | (Inr tag, r2) \<Rightarrow>
                    (case decodeAttrs numAttrs r2 [] of
                       (Inl e, r3) \<Rightarrow> Some (Inl e, r3)
                     | (Inr attrs, r3) \<Rightarrow>
                         if hasContent then
                           (case ReadByte r3 of (ct, r4) \<Rightarrow>
                              (let contentType = (case ct of None \<Rightarrow> 0 | Some b \<Rightarrow> b);
                                   r5 = UnreadByte r4
                               in if contentType < 128 then
                                    (case ReadByte r5 of (cnt, r6) \<Rightarrow>
                                       (let count = (case cnt of None \<Rightarrow> 0 | Some b \<Rightarrow> unat b)
                                        in case decodeChildren depth count r6 of
                                             None \<Rightarrow> None
                                           | Some (Inl e, r7) \<Rightarrow> Some (Inl e, r7)
                                           | Some (Inr children, r7) \<Rightarrow>
                                               Some (Inr (Some (BinaryNode tag attrs (CNodes children))), r7)))
                                  else
                                    (case decodeBytes r5 of
                                       (Inl e, r6) \<Rightarrow> Some (Inl e, r6)
                                     | (Inr data, r6) \<Rightarrow>
                                         Some (Inr (Some (BinaryNode tag attrs (CBytes data))), r6))))
                         else Some (Inr (Some (BinaryNode tag attrs CNil)), r3))))"
| "decodeChildren depth 0 r = Some (Inr [], r)"
| "decodeChildren depth (Suc k) r =
     (case decodeNode depth r of
        None \<Rightarrow> None
      | Some (Inl e, r1) \<Rightarrow> Some (Inl e, r1)
      | Some (Inr child, r1) \<Rightarrow>
          (case decodeChildren depth k r1 of
             None \<Rightarrow> None
           | Some (Inl e, r2) \<Rightarrow> Some (Inl e, r2)
           | Some (Inr children, r2) \<Rightarrow> Some (Inr (child # children), r2)))"

text \<open>Every call of \<open>decodeNode\<close> reads its descriptor byte before it calls itself, so
  a depth of one more than the number of bytes is never used up (lemma
  \<open>DecodeBinaryNode_returns\<close> below).\<close>

definition DecodeBinaryNode :: "bytes \<Rightarrow> (dec_error + BinaryNode option) option" where
  "DecodeBinaryNode data = map_option fst (decodeNode (Suc (length data)) (NewReader data))"

text \<open>What the decoders keep of a reader: the position stays within the data, the data
  are not changed and the position does not move backwards.\<close>

definition reader_ok :: "Reader \<Rightarrow> bool" where
  "reader_ok r = (r_i r \<le> length (r_s r))"

definition reader_step :: "Reader \<Rightarrow> Reader \<Rightarrow> bool" where
  "reader_step r r' = (r_s r' = r_s r \<and> r_i r \<le> r_i r' \<and> (reader_ok r \<longrightarrow> reader_ok r'))"

section \<open>SHA-256 (crypto/sha256)\<close>

text \<open>
  The hash the handshake mixes with is the standard library's SHA-256. It is written out
  here after FIPS 180-4, so that hash values of concrete byte strings can be computed:
  padding to a multiple of 64 bytes, a message schedule of 64 words per block, 64 rounds
  of the compression function on eight 32-bit working variables. The round constants
  \<open>sha_K\<close> and the initial hash value \<open>sha_H0\<close> are those of the standard, in
  decimal.
\<close>

definition rotr :: "nat \<Rightarrow> uint32 \<Rightarrow> uint32" where
  "rotr n x = drop_bit n x OR push_bit (32 - n) x"

definition sha_K :: "uint32 list" where
  "sha_K = [
    1116352408, 1899447441, 3049323471, 3921009573, 961987163, 1508970993, 2453635748, 2870763221,
    3624381080, 310598401, 607225278, 1426881987, 1925078388, 2162078206, 2614888103, 3248222580,
    3835390401, 4022224774, 264347078, 604807628, 770255983, 1249150122, 1555081692, 1996064986,
    2554220882, 2821834349, 2952996808, 3210313671, 3336571891, 3584528711, 113926993, 338241895,
    666307205, 773529912, 1294757372, 1396182291, 1695183700, 1986661051, 2177026350, 2456956037,
    2730485921, 2820302411, 3259730800, 3345764771, 3516065817, 3600352804, 4094571909, 275423344,
    430227734, 506948616, 659060556, 883997877, 958139571, 1322822218, 1537002063, 1747873779,
    1955562222, 2024104815, 2227730452, 2361852424, 2428436474, 2756734187, 3204031479, 3329325298]"

definition sha_H0 :: "uint32 list" where
  "sha_H0 = [1779033703, 3144134277, 1013904242, 2773480762,
             1359893119, 2600822924, 528734635, 1541459225]"

fun words_be :: "bytes \<Rightarrow> uint32 list" where
  "words_be (a # b # c # d # r) =
     (push_bit 24 (ucast a) OR push_bit 16 (ucast b) OR push_bit 8 (ucast c) OR ucast d)
       # words_be r"
| "words_be _ = []"

definition sha_pad :: "bytes \<Rightarrow> bytes" where
  "sha_pad m =
     m @ [0x80] @ replicate ((119 - length m mod 64) mod 64) 0
       @ map (\<lambda>k. ucast (drop_bit (8 * k) (word_of_nat (8 * length m) :: uint64)))
           [7, 6, 5, 4, 3, 2, 1, 0]"

text \<open>The message schedule is built newest first: the head of the list is the word
  before the one being added.\<close>

fun sha_schedule :: "nat \<Rightarrow> uint32 list \<Rightarrow> uint32 list" where
  "sha_schedule 0 ws = ws"
| "sha_schedule (Suc n) ws =
     (let w2 = ws ! 1; w7 = ws ! 6; w15 = ws ! 14; w16 = ws ! 15;
          s0 = rotr 7 w15 XOR rotr 18 w15 XOR drop_bit 3 w15;
          s1 = rotr 17 w2 XOR rotr 19 w2 XOR drop_bit 10 w2
      in sha_schedule n ((s1 + w7 + s0 + w16) # ws))"

fun sha_round :: "uint32 list \<Rightarrow> (uint32 \<times> uint32) \<Rightarrow> uint32 list" where
  "sha_round [a, b, c, d, e, f, g, h] (k, w) =
     (let S1 = rotr 6 e XOR rotr 11 e XOR rotr 25 e;
          ch = (e AND f) XOR (NOT e AND g);
          t1 = h + S1 + ch + k + w;
          S0 = rotr 2 a XOR rotr 13 a XOR rotr 22 a;
          mj = (a AND b) XOR (a AND c) XOR (b AND c);
          t2 = S0 + mj
      in [t1 + t2, a, b, c, d + t1, e, f, g])"
| "sha_round st _ = st"

definition sha_block :: "uint32 list \<Rightarrow> bytes \<Rightarrow> uint32 list" where
  "sha_block hs blk =
     (let ws = rev (sha_schedule 48 (rev (words_be blk)))
      in map2 (+) hs (foldl sha_round hs (zip sha_K ws)))"

fun sha_blocks :: "nat \<Rightarrow> uint32 list \<Rightarrow> bytes \<Rightarrow> uint32 list" where
  "sha_blocks 0 hs m = hs"
| "sha_blocks (Suc n) hs m = sha_blocks n (sha_block hs (take 64 m)) (drop 64 m)"

definition SHA256 :: "bytes \<Rightarrow> bytes" where
  "SHA256 m =
     (let p = sha_pad m in concat (map be32 (sha_blocks (length p div 64) sha_H0 p)))"

section \<open>Noise handshake (src/internal/core/noise.go)\<close>

text \<open>
  The other primitives the handler calls are parameters of the model:
  \<^item> \<open>hkdf64 secret salt\<close>: the 64 bytes read from \<open>hkdf.New(sha256.New, secret, salt, nil)\<close>,
    or \<open>None\<close> when the read reports an error;
  \<^item> \<open>gcmSeal key nonce plaintext aad\<close> and \<open>gcmOpen key nonce ciphertext aad\<close>: AES-GCM,
    \<open>gcmOpen\<close> being \<open>None\<close> when authentication fails;
  \<^item> \<open>x25519 scalar point\<close>: \<open>curve25519.X25519\<close>, \<open>None\<close> when it reports an error;
  \<^item> \<open>scalarBaseMult scalar\<close>: \<open>curve25519.ScalarBaseMult\<close>.
\<close>

record Crypto =
  hkdf64 :: "bytes \<Rightarrow> bytes \<Rightarrow> bytes option"
  gcmSeal :: "bytes \<Rightarrow> bytes \<Rightarrow> bytes \<Rightarrow> bytes \<Rightarrow> bytes"
  gcmOpen :: "bytes \<Rightarrow> bytes \<Rightarrow> bytes \<Rightarrow> bytes \<Rightarrow> bytes option"
  x25519 :: "bytes \<Rightarrow> bytes \<Rightarrow> bytes option"
  scalarBaseMult :: "bytes \<Rightarrow> bytes"

definition NoiseMode :: bytes where
  "NoiseMode = bytes_of_string ''Noise_XX_25519_AESGCM_SHA256'' @ [0x00, 0x00, 0x00, 0x00]"

definition NoiseHeader :: bytes where
  "NoiseHeader = bytes_of_string ''WA'' @ [0x06, 0x03]"

record NoiseHandler =
  ephemeralPrivate :: bytes
  ephemeralPublic :: bytes
  staticPrivate :: bytes
  staticPublic :: bytes
  serverEphemeral :: bytes
  hash :: bytes
  salt :: bytes
  encKey :: bytes
  decKey :: bytes
  readCounter :: uint32
  writeCounter :: uint32
  isFinished :: bool
  frameBuffer :: bytes

datatype noise_error =
    ErrAesKeySize
  | ErrGcmOpen
  | ErrHkdfRead
  | ErrInvalidKeyLength
  | ErrX25519
  | ErrServerHelloTooShort
  | ErrDH1Failed noise_error
  | ErrMixIntoKeyFailed noise_error
  | PanicInDecode pb_error

definition authenticate :: "NoiseHandler \<Rightarrow> bytes \<Rightarrow> NoiseHandler" where
  "authenticate n data =
     (if \<not> isFinished n then n\<lparr>hash := SHA256 (hash n @ data)\<rparr> else n)"

text \<open>\<open>initializeState\<close> up to the assignment \<open>n.isFinished = false\<close>, before the two
  calls of \<open>authenticate\<close>.\<close>

definition initializeState_assign :: "NoiseHandler \<Rightarrow> NoiseHandler" where
  "initializeState_assign n =
     (let modeBytes = NoiseMode;
          h = (if length modeBytes = 32 then modeBytes else SHA256 modeBytes)
      in n\<lparr>hash := h, salt := h, encKey := h, decKey := h,
            readCounter := 0, writeCounter := 0, isFinished := False\<rparr>)"

definition initializeState :: "NoiseHandler \<Rightarrow> NoiseHandler" where
  "initializeState n =
     (let n1 = initializeState_assign n;
          n2 = authenticate n1 NoiseHeader
      in authenticate n2 (ephemeralPublic n2))"

text \<open>\<open>NewNoiseHandler\<close>: the two arguments are the 32 bytes each that \<open>rand.Read\<close>
  delivers.\<close>

definition NewNoiseHandler :: "Crypto \<Rightarrow> bytes \<Rightarrow> bytes \<Rightarrow> NoiseHandler" where
  "NewNoiseHandler P rand1 rand2 =
     initializeState
       \<lparr>ephemeralPrivate = rand1, ephemeralPublic = scalarBaseMult P rand1,
        staticPrivate = rand2, staticPublic = scalarBaseMult P rand2,
        serverEphemeral = [], hash = [], salt = [], encKey = [], decKey = [],
        readCounter = 0, writeCounter = 0, isFinished = False, frameBuffer = []\<rparr>"

definition generateIV :: "uint32 \<Rightarrow> bytes" where
  "generateIV counter = replicate 8 0 @ be32 counter"

text \<open>\<open>aes.NewCipher\<close> accepts keys of 16, 24 or 32 bytes only.\<close>

definition aes_key_ok :: "bytes \<Rightarrow> bool" where
  "aes_key_ok k = (length k = 16 \<or> length k = 24 \<or> length k = 32)"

text \<open>The key and the nonce that \<open>encrypt\<close> and \<open>decrypt\<close> hand to AES-GCM.\<close>

definition encrypt_nonce :: "NoiseHandler \<Rightarrow> bytes" where
  "encrypt_nonce n = generateIV (writeCounter n)"

definition decrypt_nonce :: "NoiseHandler \<Rightarrow> bytes" where
  "decrypt_nonce n =
     (if isFinished n then generateIV (readCounter n) else generateIV (writeCounter n))"

definition encrypt :: "Crypto \<Rightarrow> NoiseHandler \<Rightarrow> bytes \<Rightarrow> (noise_error + bytes) \<times> NoiseHandler" where
  "encrypt P n plaintext =
     (if \<not> aes_key_ok (encKey n) then (Inl ErrAesKeySize, n)
      else
        (let iv = encrypt_nonce n;
             ciphertext = gcmSeal P (encKey n) iv plaintext (hash n);
             n1 = n\<lparr>writeCounter := writeCounter n + 1\<rparr>;
             n2 = authenticate n1 ciphertext
         in (Inr ciphertext, n2)))"

definition decrypt :: "Crypto \<Rightarrow> NoiseHandler \<Rightarrow> bytes \<Rightarrow> (noise_error + bytes) \<times> NoiseHandler" where
  "decrypt P n ciphertext =
     (if \<not> aes_key_ok (decKey n) then (Inl ErrAesKeySize, n)
      else
        (let iv = decrypt_nonce n;
             n1 = (if isFinished n then n\<lparr>readCounter := readCounter n + 1\<rparr>
                   else n\<lparr>writeCounter := writeCounter n + 1\<rparr>)
         in case gcmOpen P (decKey n1) iv ciphertext (hash n1) of
              None \<Rightarrow> (Inl ErrGcmOpen, n1)
            | Some plaintext \<Rightarrow> (Inr plaintext, authenticate n1 ciphertext)))"

definition mixIntoKey :: "Crypto \<Rightarrow> NoiseHandler \<Rightarrow> bytes \<Rightarrow> (noise_error + unit) \<times> NoiseHandler" where
  "mixIntoKey P n data =
     (case hkdf64 P data (salt n) of
        None \<Rightarrow> (Inl ErrHkdfRead, n)
      | Some key \<Rightarrow>
          (Inr (), n\<lparr>salt := take 32 key, encKey := drop 32 key, decKey := drop 32 key,
                     readCounter := 0, writeCounter := 0\<rparr>))"

definition finishInit :: "Crypto \<Rightarrow> NoiseHandler \<Rightarrow> (noise_error + unit) \<times> NoiseHandler" where
  "finishInit P n =
     (case hkdf64 P [] (salt n) of
        None \<Rightarrow> (Inl ErrHkdfRead, n)
      | Some key \<Rightarrow>
          (Inr (), n\<lparr>encKey := take 32 key, decKey := drop 32 key, hash := [],
                     readCounter := 0, writeCounter := 0, isFinished := True\<rparr>))"

definition dh :: "Crypto \<Rightarrow> bytes \<Rightarrow> bytes \<Rightarrow> noise_error + bytes" where
  "dh P privateKey publicKey =
     (if length privateKey \<noteq> 32 \<or> length publicKey \<noteq> 32 then Inl ErrInvalidKeyLength
      else (case x25519 P privateKey publicKey of
              None \<Rightarrow> Inl ErrX25519
            | Some shared \<Rightarrow> Inr shared))"

text \<open>The 3-byte length prefix: \<open>byte(len >> 16)\<close>, then \<open>PutUint16(uint16(len & 0xFFFF))\<close>.\<close>

definition length_prefix3 :: "nat \<Rightarrow> bytes" where
  "length_prefix3 len = [word_of_nat (len div 65536)] @ be16 (word_of_nat (len mod 65536))"

definition GenerateClientHello :: "NoiseHandler \<Rightarrow> bytes" where
  "GenerateClientHello n =
     (let clientHelloProto = EncodeClientHello (ephemeralPublic n);
          header = NoiseHeader;
          payloadLen = length clientHelloProto
      in header @ length_prefix3 payloadLen @ clientHelloProto)"

text \<open>
  \<open>ProcessServerHello\<close>, in two parts: the parse with its fallback, and what is done with
  the parsed fields. The state is returned on every path, since the fields assigned before
  an error return stay assigned. The error of \<open>decrypt\<close> and of the second \<open>dh\<close> is
  tested by \<open>err == nil\<close> and otherwise dropped; the result of the second \<open>mixIntoKey\<close> is
  assigned to \<open>_\<close>.
\<close>

definition ProcessServerHello_fields ::
    "Crypto \<Rightarrow> NoiseHandler \<Rightarrow> ServerHelloData \<Rightarrow> (noise_error + unit) \<times> NoiseHandler" where
  "ProcessServerHello_fields P n serverHello =
     (let n1 = n\<lparr>serverEphemeral := Ephemeral serverHello\<rparr>;
          n2 = authenticate n1 (Ephemeral serverHello)
      in case dh P (ephemeralPrivate n2) (Ephemeral serverHello) of
           Inl e \<Rightarrow> (Inl (ErrDH1Failed e), n2)
         | Inr shared1 \<Rightarrow>
             (case mixIntoKey P n2 shared1 of
                (Inl e, n3) \<Rightarrow> (Inl (ErrMixIntoKeyFailed e), n3)
              | (Inr _, n3) \<Rightarrow>
                  if length (Static serverHello) \<ge> 48 then
                    (case decrypt P n3 (take 48 (Static serverHello)) of
                       (Inl e, n4) \<Rightarrow> (Inr (), n4)
                     | (Inr decryptedStatic, n4) \<Rightarrow>
                         if length decryptedStatic = 32 then
                           (case dh P (ephemeralPrivate n4) decryptedStatic of
                              Inl e \<Rightarrow> (Inr (), n4)
                            | Inr shared2 \<Rightarrow> (Inr (), snd (mixIntoKey P n4 shared2)))
                         else (Inr (), n4))
                  else (Inr (), n3)))"

definition ProcessServerHello ::
    "Crypto \<Rightarrow> NoiseHandler \<Rightarrow> bytes \<Rightarrow> ((noise_error + unit) \<times> NoiseHandler) option" where
  "ProcessServerHello P n data =
     (if length data < 32 then Some (Inl ErrServerHelloTooShort, n)
      else
        (case DecodeServerHello data of
           None \<Rightarrow> None
         | Some (Inl e) \<Rightarrow> Some (Inl (PanicInDecode e), n)
         | Some (Inr decoded) \<Rightarrow>
             (let serverHello =
                    (if length (Ephemeral decoded) \<noteq> 32 then
                       \<lparr>Ephemeral = take 32 data,
                        Static = (if length data > 32 then drop 32 data else []),
                        Payload = []\<rparr>
                     else decoded)
              in Some (ProcessServerHello_fields P n serverHello))))"

definition GenerateClientFinish ::
    "Crypto \<Rightarrow> NoiseHandler \<Rightarrow> (noise_error + bytes) \<times> NoiseHandler" where
  "GenerateClientFinish P n =
     (case encrypt P n (staticPublic n) of
        (Inl e, n1) \<Rightarrow> (Inl e, n1)
      | (Inr encryptedStaticKey, n1) \<Rightarrow>
          (let n2 = (if length (serverEphemeral n1) = 32 then
                       (case dh P (staticPrivate n1) (serverEphemeral n1) of
                          Inl e \<Rightarrow> n1
                        | Inr shared3 \<Rightarrow> snd (mixIntoKey P n1 shared3))
                     else n1);
               payload = [];
               clientFinishProto = EncodeClientFinish encryptedStaticKey payload
           in case finishInit P n2 of
                (Inl e, n3) \<Rightarrow> (Inl e, n3)
              | (Inr _, n3) \<Rightarrow> (Inr clientFinishProto, n3)))"

text \<open>The public \<open>Encrypt\<close> and \<open>Decrypt\<close> return a byte slice and no error.\<close>

definition Encrypt :: "Crypto \<Rightarrow> NoiseHandler \<Rightarrow> bytes \<Rightarrow> bytes \<times> NoiseHandler" where
  "Encrypt P n data =
     (if \<not> isFinished n then (data, n)
      else (case encrypt P n data of
              (Inl e, n1) \<Rightarrow> (data, n1)
            | (Inr encrypted, n1) \<Rightarrow> (encrypted, n1)))"

definition Decrypt :: "Crypto \<Rightarrow> NoiseHandler \<Rightarrow> bytes \<Rightarrow> bytes \<times> NoiseHandler" where
  "Decrypt P n data =
     (if \<not> isFinished n then (data, n)
      else (case decrypt P n data of
              (Inl e, n1) \<Rightarrow> (data, n1)
            | (Inr decrypted, n1) \<Rightarrow> (decrypted, n1)))"

text \<open>
  A run of calls of \<open>encrypt\<close> and \<open>decrypt\<close> with no key derivation in between, and the
  (key, nonce) pair of every AES-GCM call it makes, in order. A call that fails in
  \<open>aes.NewCipher\<close> makes no AES-GCM call.
\<close>

datatype aead_op = OpEncrypt bytes | OpDecrypt bytes

fun aead_calls :: "Crypto \<Rightarrow> NoiseHandler \<Rightarrow> aead_op list \<Rightarrow> (bytes \<times> bytes) list" where
  "aead_calls P n [] = []"
| "aead_calls P n (OpEncrypt plaintext # ops) =
     (if aes_key_ok (encKey n) then [(encKey n, encrypt_nonce n)] else [])
       @ aead_calls P (snd (encrypt P n plaintext)) ops"
| "aead_calls P n (OpDecrypt ciphertext # ops) =
     (if aes_key_ok (decKey n) then [(decKey n, decrypt_nonce n)] else [])
       @ aead_calls P (snd (decrypt P n ciphertext)) ops"

section \<open>QR pairing string (src/internal/core/qrcode.go)\<close>

definition b64 :: string where
  "b64 = ''ABCDEFGHIJKLMNOPQRSTUVWXYZabcdefghijklmnopqrstuvwxyz0123456789+/''"

text \<open>\<open>encodeBase64\<close>: the loop \<open>for i := 0; i < len(data); i += 3\<close>, one equation per
  value of \<open>remaining\<close> (3 or more, 2, 1).\<close>

fun encodeBase64 :: "bytes \<Rightarrow> string" where
  "encodeBase64 (x # y # z # rest) =
     (let b = push_bit 16 (ucast x :: uint32) OR push_bit 8 (ucast y) OR ucast z
      in [b64 ! unat (drop_bit 18 b AND 0x3F), b64 ! unat (drop_bit 12 b AND 0x3F),
          b64 ! unat (drop_bit 6 b AND 0x3F), b64 ! unat (b AND 0x3F)])
       @ encodeBase64 rest"
| "encodeBase64 [x, y] =
     (let b = push_bit 16 (ucast x :: uint32) OR push_bit 8 (ucast y)
      in [b64 ! unat (drop_bit 18 b AND 0x3F), b64 ! unat (drop_bit 12 b AND 0x3F),
          b64 ! unat (drop_bit 6 b AND 0x3F), CHR ''=''])"
| "encodeBase64 [x] =
     (let b = push_bit 16 (ucast x :: uint32)
      in [b64 ! unat (drop_bit 18 b AND 0x3F), b64 ! unat (drop_bit 12 b AND 0x3F),
          CHR ''='', CHR ''=''])"
| "encodeBase64 [] = []"

text \<open>\<open>generateQRData\<close>: \<open>ref\<close> is the string \<open>generateRef()\<close> returns (the clock in
  milliseconds, in decimal), \<open>pub\<close> is \<open>c.noise.GetPublicKey()\<close>.\<close>

definition generateQRData :: "string \<Rightarrow> bytes \<Rightarrow> string \<Rightarrow> string" where
  "generateQRData ref pub sessionID =
     ''2@'' @ ref @ '','' @ encodeBase64 pub @ '','' @ sessionID"

text \<open>
  The reference the claim compares with: base64 as RFC 4648, section 4, words it. The input
  is a string of bits, each byte most significant bit first; it is cut into groups of 6
  bits, the last one filled up with zero bits; each group, read as a binary number with
  its first bit the most significant, indexes the alphabet; \<open>=\<close> is appended until the number of characters is a multiple of 4.
\<close>

fun groups6 :: "bool list \<Rightarrow> bool list list" where
  "groups6 (b1 # b2 # b3 # b4 # b5 # b6 # rest) = [b1, b2, b3, b4, b5, b6] # groups6 rest"
| "groups6 [] = []"
| "groups6 bs = [take 6 (bs @ replicate 5 False)]"

definition bits_of_byte :: "byte \<Rightarrow> bool list" where
  "bits_of_byte x = map (bit x) [7, 6, 5, 4, 3, 2, 1, 0]"

definition group_value :: "bool list \<Rightarrow> nat" where
  "group_value g = horner_sum of_bool 2 (rev g)"

definition rfc4648_base64 :: "bytes \<Rightarrow> string" where
  "rfc4648_base64 data =
     (let cs = map (\<lambda>g. b64 ! group_value g) (groups6 (concat (map bits_of_byte data)))
      in cs @ replicate ((4 - length cs mod 4) mod 4) CHR ''='')"

section \<open>Session manager (src/unnamed/part_002, src/unnamed/part_003)\<close>

text \<open>
  The part of the session manager that the map of sessions depends on. \<open>time.Now()\<close> is
  an argument; the logger, the background \<open>Connect\<close> and the removal of the session's
  directory do not touch the map and are left out.
\<close>

datatype SessionStatus =
  StatusInitializing | StatusConnecting | StatusQRReady | StatusReady | StatusDisconnected

datatype session_error = ErrSessionExists | ErrSessionNotFound | ErrNotConnected

record WAClient =
  ID :: string
  status :: SessionStatus
  phoneNumber :: string
  qrCode :: string
  qrCodeBase64 :: string
  connectedAt :: "nat option"
  lastActivityAt :: nat
  messagesSent :: nat
  messagesReceived :: nat
  clientDataDir :: string

record SessionManager =
  sessions :: "string \<rightharpoonup> WAClient"
  dataDir :: string

definition NewWAClient :: "string \<Rightarrow> string \<Rightarrow> nat \<Rightarrow> WAClient" where
  "NewWAClient sessionID dir now =
     \<lparr>ID = sessionID, status = StatusInitializing, phoneNumber = [], qrCode = [],
      qrCodeBase64 = [], connectedAt = None, lastActivityAt = now, messagesSent = 0,
      messagesReceived = 0, clientDataDir = dir\<rparr>"

definition NewSessionManager :: "string \<Rightarrow> SessionManager" where
  "NewSessionManager dir = \<lparr>sessions = Map.empty, dataDir = dir\<rparr>"

definition CreateSession ::
    "SessionManager \<Rightarrow> string \<Rightarrow> nat \<Rightarrow> (session_error + WAClient) \<times> SessionManager" where
  "CreateSession sm sessionID now =
     (case sessions sm sessionID of
        Some existing \<Rightarrow> (Inl ErrSessionExists, sm)
      | None \<Rightarrow>
          (let client = NewWAClient sessionID (dataDir sm) now
           in (Inr client, sm\<lparr>sessions := (sessions sm)(sessionID \<mapsto> client)\<rparr>)))"

definition GetSession :: "SessionManager \<Rightarrow> string \<Rightarrow> WAClient option" where
  "GetSession sm sessionID = sessions sm sessionID"

definition DeleteSession ::
    "SessionManager \<Rightarrow> string \<Rightarrow> (session_error + unit) \<times> SessionManager" where
  "DeleteSession sm sessionID =
     (case sessions sm sessionID of
        None \<Rightarrow> (Inl ErrSessionNotFound, sm)
      | Some client \<Rightarrow> (Inr (), sm\<lparr>sessions := (sessions sm)(sessionID := None)\<rparr>))"

text \<open>A sequence of create and delete calls; a call that fails leaves the manager as it
  gave it back.\<close>

datatype sm_op = Create string nat | Delete string

fun sm_step :: "SessionManager \<Rightarrow> sm_op \<Rightarrow> SessionManager" where
  "sm_step sm (Create sessionID now) = snd (CreateSession sm sessionID now)"
| "sm_step sm (Delete sessionID) = snd (DeleteSession sm sessionID)"

definition sm_run :: "sm_op list \<Rightarrow> SessionManager \<Rightarrow> SessionManager" where
  "sm_run ops sm = foldl sm_step sm ops"

text \<open>No two clients of the manager share an identifier: every client is stored under its
  own \<open>ID\<close>.\<close>

definition unique_ids :: "SessionManager \<Rightarrow> bool" where
  "unique_ids sm =
     (\<forall>k1 k2 c1 c2. sessions sm k1 = Some c1 \<and> sessions sm k2 = Some c2 \<and> k1 \<noteq> k2
        \<longrightarrow> ID c1 \<noteq> ID c2)"

section \<open>Example values\<close>

text \<open>
  Concrete primitives and a concrete handler, for evaluating the model: a key derivation
  that returns fixed bytes, a seal that appends a zero tag, an open that rejects every
  ciphertext, and fixed Diffie-Hellman results.
\<close>

definition demo_crypto :: Crypto where
  "demo_crypto =
     \<lparr>hkdf64 = (\<lambda>secret salt. Some (replicate 32 0x01 @ replicate 32 0x02)),
      gcmSeal = (\<lambda>key nonce plaintext aad. plaintext @ replicate 16 0x00),
      gcmOpen = (\<lambda>key nonce ciphertext aad. None),
      x25519 = (\<lambda>scalar point. Some (replicate 32 0x09)),
      scalarBaseMult = (\<lambda>scalar. replicate 32 0x05)\<rparr>"

definition demo_handler :: NoiseHandler where
  "demo_handler = NewNoiseHandler demo_crypto (replicate 32 0x03) (replicate 32 0x04)"

definition demo_transport :: NoiseHandler where
  "demo_transport = snd (finishInit demo_crypto demo_handler)"

text \<open>A ServerHello as the server sends it: field 3 of the handshake message, holding a
  32-byte ephemeral key as field 1 and a 48-byte encrypted static key as field 2.\<close>

definition demo_server_hello :: bytes where
  "demo_server_hello =
     [0x1A, 0x54, 0x0A, 0x20] @ replicate 32 0x07 @ [0x12, 0x30] @ replicate 48 0x08"

definition demo_ops :: "sm_op list" where
  "demo_ops = [Create ''s1'' 1, Create ''s2'' 2, Create ''s1'' 3, Delete ''s3'', Delete ''s2'']"

section \<open>Varint round trip\<close>

lemma numeral_7F_mask: "(0x7F :: 'a::len word) = mask 7"
  by (simp add: mask_eq_exp_minus_1)

lemma bit_0x80_iff: "bit (0x80 :: 'a::len word) k \<longleftrightarrow> k = 7 \<and> 7 < LENGTH('a)"
proof -
  have "bit (2 ^ 7 :: 'a word) k \<longleftrightarrow> k = 7 \<and> 7 < LENGTH('a)"
    by (simp only: bit_exp_iff possible_bit_word) blast
  then show ?thesis by simp
qed

lemma low7_ucast: "(ucast (ucast (n AND 0x7F :: uint64) :: byte) :: uint64) = n AND 0x7F"
  unfolding numeral_7F_mask by (rule bit_word_eqI) (auto simp add: bit_simps)

lemma low7_of_continued: "((ucast (n AND 0x7F :: uint64) :: byte) OR 0x80) AND 0x7F = ucast (n AND 0x7F)"
proof (rule bit_word_eqI)
  fix k assume "k < LENGTH(8)"
  have "\<not> (k < 7 \<and> bit (0x80 :: byte) k)"
    unfolding bit_0x80_iff by simp
  then show "bit ((ucast (n AND 0x7F) OR 0x80) AND (0x7F :: byte)) k = bit (ucast (n AND 0x7F) :: byte) k"
    unfolding numeral_7F_mask bit_and_iff bit_or_iff bit_mask_iff bit_ucast_iff by auto
qed

lemma low7_idem: "((ucast (n AND 0x7F :: uint64) :: byte)) AND 0x7F = ucast (n AND 0x7F)"
  unfolding numeral_7F_mask by (rule bit_word_eqI) (auto simp add: bit_simps)

lemma low7_less: "((ucast (n AND 0x7F :: uint64) :: byte)) < 0x80"
proof -
  have "(ucast (n AND 0x7F :: uint64) :: byte) = take_bit 7 (ucast n)"
    unfolding numeral_7F_mask by (rule bit_word_eqI) (auto simp add: bit_simps)
  moreover have "take_bit 7 (unat (ucast n :: byte)) < 2 ^ 7"
    by (rule take_bit_nat_less_exp)
  ultimately show ?thesis by (simp add: word_less_nat_alt unsigned_take_bit_eq)
qed

lemma continued_not_less: "\<not> ((b :: byte) OR 0x80) < 0x80"
proof -
  have "(0x80 :: byte) \<le> 0x80 OR b"
    by (rule le_word_or2)
  then show ?thesis by (simp add: or.commute)
qed

lemma split_low7: "(n AND 0x7F) OR push_bit 7 (drop_bit 7 n) = (n :: uint64)"
proof (rule bit_word_eqI)
  fix k assume "k < LENGTH(64)"
  show "bit ((n AND 0x7F) OR push_bit 7 (drop_bit 7 n)) k = bit n k"
    using \<open>k < LENGTH(64)\<close> by (cases "k < 7") (auto simp add: numeral_7F_mask bit_simps)
qed

lemma low7_all: "drop_bit 7 n = 0 \<Longrightarrow> n AND 0x7F = (n::uint64)"
  using split_low7 [of n] by simp

lemma encodeVarint_loop_step:
  "n \<noteq> 0 \<Longrightarrow> encodeVarint_loop n buf =
     encodeVarint_loop (drop_bit 7 n)
       (buf @ [if drop_bit 7 n \<noteq> 0 then ucast (n AND 0x7F) OR 0x80 else ucast (n AND 0x7F)])"
  by (subst encodeVarint_loop.simps) (simp add: Let_def word_greater_zero_iff)

lemma encodeVarint_loop_zero: "encodeVarint_loop 0 buf = buf"
  by (subst encodeVarint_loop.simps) simp

lemma unat_drop7: "unat (drop_bit 7 (n::uint64)) = unat n div 128"
  by (simp add: unat_drop_bit_eq drop_bit_eq_div unat_div)

lemma drop7_less: "n \<noteq> 0 \<Longrightarrow> unat (drop_bit 7 (n::uint64)) < unat n"
  by (simp add: unat_drop7 unat_gt_0)

lemma encodeVarint_loop_acc: "encodeVarint_loop n buf = buf @ encodeVarint_loop n []"
proof (induction "unat n" arbitrary: n buf rule: less_induct)
  case less
  show ?case
  proof (cases "n = 0")
    case True
    then show ?thesis by (simp add: encodeVarint_loop_zero)
  next
    case False
    define b where "b = (if drop_bit 7 n \<noteq> 0 then ucast (n AND 0x7F) OR 0x80 else (ucast (n AND 0x7F) :: byte))"
    have e1: "encodeVarint_loop n buf = encodeVarint_loop (drop_bit 7 n) (buf @ [b])"
      using False by (simp add: encodeVarint_loop_step b_def)
    have e2: "encodeVarint_loop n [] = encodeVarint_loop (drop_bit 7 n) [b]"
      using False encodeVarint_loop_step [of n "[]"] by (simp add: b_def)
    from less [OF drop7_less [OF False], of "buf @ [b]"] less [OF drop7_less [OF False], of "[b]"] e1 e2
    show ?thesis by simp
  qed
qed

lemma decodeVarint_loop_encode:
  "n \<noteq> 0 \<Longrightarrow> unat n < 2 ^ (64 - shift) \<Longrightarrow> shift < 64 \<Longrightarrow>
   decodeVarint_loop (encodeVarint_loop n [] @ rest) acc shift i =
     (acc OR push_bit shift n, i + length (encodeVarint_loop n []))"
proof (induction "unat n" arbitrary: n acc shift i rule: less_induct)
  case less
  let ?b = "ucast (n AND 0x7F) :: byte"
  let ?n' = "drop_bit 7 n"
  show ?case
  proof (cases "?n' = 0")
    case True
    define b where "b = ?b"
    have enc: "encodeVarint_loop n [] = [b]"
      using less.prems(1) True encodeVarint_loop_step [of n "[]"] by (simp add: encodeVarint_loop_zero b_def)
    have "ucast (b AND 0x7F) = n AND 0x7F"
      by (simp add: b_def low7_idem low7_ucast)
    then have val: "ucast (b AND 0x7F) = n"
      by (simp add: low7_all [OF True])
    have "b < 0x80" by (simp add: b_def low7_less)
    then show ?thesis
      by (simp add: enc val)
  next
    case False
    have enc: "encodeVarint_loop n [] = (?b OR 0x80) # encodeVarint_loop ?n' []"
      using less.prems(1) False encodeVarint_loop_step [of n "[]"] encodeVarint_loop_acc [of ?n' "[?b OR 0x80]"] by simp
    have ge: "128 \<le> unat n"
      using False by (metis unat_drop7 div_less not_le unat_eq_zero)
    have sh: "shift + 7 < 64"
    proof (rule ccontr)
      assume "\<not> shift + 7 < 64"
      then have "64 - shift \<le> 7" by simp
      then have "(2::nat) ^ (64 - shift) \<le> 2 ^ 7" by (rule power_increasing) simp
      with less.prems(2) ge show False by simp
    qed
    have "64 - shift = (64 - (shift + 7)) + 7"
      using sh by simp
    then have "(2::nat) ^ (64 - shift) = 2 ^ (64 - (shift + 7)) * 2 ^ 7"
      by (simp only: power_add)
    with less.prems(2) have "unat n < 2 ^ (64 - (shift + 7)) * 2 ^ 7"
      by (simp only:)
    then have bd: "unat ?n' < 2 ^ (64 - (shift + 7))"
      by (simp add: unat_drop7 less_mult_imp_div_less)
    define lo where "lo = n AND 0x7F"
    define c where "c = ?b OR 0x80"
    have c1: "\<not> c < 0x80" by (simp add: c_def continued_not_less)
    have c2: "ucast (c AND 0x7F) = lo" by (simp add: c_def lo_def low7_of_continued low7_ucast)
    have enc': "encodeVarint_loop n [] = c # encodeVarint_loop ?n' []"
      using enc by (simp add: c_def)
    have IH: "decodeVarint_loop (encodeVarint_loop ?n' [] @ rest)
                (acc OR push_bit shift lo) (shift + 7) (i + 1) =
              ((acc OR push_bit shift lo) OR push_bit (shift + 7) ?n',
                 (i + 1) + length (encodeVarint_loop ?n' []))"
      by (rule less.hyps [OF drop7_less [OF less.prems(1)] False bd sh])
    have "push_bit shift lo OR push_bit (shift + 7) ?n' =
          push_bit shift (lo OR push_bit 7 ?n')"
      by (simp add: push_bit_or push_bit_push_bit add.commute)
    also have "lo OR push_bit 7 ?n' = n"
      by (simp add: lo_def split_low7)
    finally have comb: "(acc OR push_bit shift lo) OR push_bit (shift + 7) ?n' = acc OR push_bit shift n"
      by (simp add: or.assoc)
    show ?thesis
      using sh IH by (simp add: enc' c1 c2 comb)
  qed
qed


text \<open>
  C4. For every 64-bit \<open>n\<close>, decoding the varint encoding of \<open>n\<close> gives \<open>n\<close> and the
  number of bytes of the encoding; 0 is encoded as the single byte 0, and there are
  encodings of 1, 2, 5 and 10 bytes.
\<close>

theorem varint_roundtrip:
  "decodeVarint (encodeVarint n) = (n, length (encodeVarint n))
   \<and> encodeVarint 0 = [0x00]
   \<and> length (encodeVarint 0x7F) = 1 \<and> length (encodeVarint 0x80) = 2
   \<and> length (encodeVarint 0xFFFFFFFF) = 5 \<and> length (encodeVarint 0xFFFFFFFFFFFFFFFF) = 10"
proof -
  have rt: "decodeVarint (encodeVarint n) = (n, length (encodeVarint n))"
  proof (cases "n = 0")
    case True
    then show ?thesis by (simp add: encodeVarint_def decodeVarint_def)
  next
    case False
    have "unat n < 2 ^ (64 - 0)" using unsigned_less [of n] by simp
    from decodeVarint_loop_encode [OF False this, of "[]" 0 0] False
    show ?thesis by (simp add: encodeVarint_def decodeVarint_def)
  qed
  have "encodeVarint 0 = [0x00]"
    by (simp add: encodeVarint_def)
  moreover have "length (encodeVarint 0x7F) = 1" "length (encodeVarint 0x80) = 2"
    "length (encodeVarint 0xFFFFFFFF) = 5" "length (encodeVarint 0xFFFFFFFFFFFFFFFF) = 10"
    by (simp_all add: encodeVarint_def encodeVarint_loop_step encodeVarint_loop_zero)
  ultimately show ?thesis using rt by simp
qed

section \<open>The ClientHello frame\<close>

lemma EncodeClientHello_32:
  assumes "length e = 32"
  shows "EncodeClientHello e = [0x12, 0x22, 0x0A, 0x20] @ e"
proof -
  have inner: "pbEncodeBytes fieldEphemeral e = [0x0A, 0x20] @ e"
    using assms
    by (simp add: pbEncodeBytes_def encodeTag_def fieldEphemeral_def wireBytes_def
        encodeVarint_def encodeVarint_loop_step encodeVarint_loop_zero)
  have "pbEncodeBytes fieldClientHello ([0x0A, 0x20] @ e) = [0x12, 0x22] @ [0x0A, 0x20] @ e"
    using assms
    by (simp add: pbEncodeBytes_def encodeTag_def fieldClientHello_def wireBytes_def
        encodeVarint_def encodeVarint_loop_step encodeVarint_loop_zero)
  then show ?thesis by (simp add: EncodeClientHello_def inner)
qed

lemma findField_ClientHello:
  assumes "length e = 32"
  shows "findField ([0x12, 0x22, 0x0A, 0x20] @ e) fieldClientHello = Some (Inr ([0x0A, 0x20] @ e))"
  unfolding findField_def
  apply (subst findField_loop.simps)
  using assms
  apply (simp add: decodeVarint_def wireVarint_def wireFixed64_def wireFixed32_def wireBytes_def
      fieldClientHello_def int64_add_def Let_def)
  done

lemma findField_Ephemeral:
  assumes "length e = 32"
  shows "findField ([0x0A, 0x20] @ e) fieldEphemeral = Some (Inr e)"
  unfolding findField_def
  apply (subst findField_loop.simps)
  using assms
  apply (simp add: decodeVarint_def wireVarint_def wireFixed64_def wireFixed32_def wireBytes_def
      fieldEphemeral_def int64_add_def Let_def)
  done

lemma demo_handler_ephemeralPublic: "ephemeralPublic demo_handler = replicate 32 0x05"
  by (simp add: demo_handler_def NewNoiseHandler_def initializeState_def
      initializeState_assign_def authenticate_def demo_crypto_def Let_def)

text \<open>
  C7. With the 32-byte ephemeral public key the handler always has, \<open>GenerateClientHello\<close>
  returns the header \<open>WA\<close>, 6, 3, then the length of the payload as three bytes, big endian
  (36), then the payload: tag \<open>0x12\<close> (field 2, length-delimited), length 34, tag \<open>0x0A\<close>
  (field 1, length-delimited), length 32, and the key. The repository's own parser finds
  field 2 in the payload, and the key as field 1 inside it.
\<close>

theorem GenerateClientHello_frame:
  assumes "length (ephemeralPublic n) = 32"
  shows "GenerateClientHello n =
           bytes_of_string ''WA'' @ [0x06, 0x03] @ [0x00, 0x00, 0x24]
             @ [0x12, 0x22, 0x0A, 0x20] @ ephemeralPublic n
         \<and> length ([0x12 :: byte, 0x22, 0x0A, 0x20] @ ephemeralPublic n) = 0x24
         \<and> findField ([0x12, 0x22, 0x0A, 0x20] @ ephemeralPublic n) fieldClientHello
             = Some (Inr ([0x0A, 0x20] @ ephemeralPublic n))
         \<and> findField ([0x0A, 0x20] @ ephemeralPublic n) fieldEphemeral
             = Some (Inr (ephemeralPublic n))"
proof -
  have "GenerateClientHello n =
           bytes_of_string ''WA'' @ [0x06, 0x03] @ [0x00, 0x00, 0x24]
             @ [0x12, 0x22, 0x0A, 0x20] @ ephemeralPublic n"
    using assms
    by (simp add: GenerateClientHello_def EncodeClientHello_32 NoiseHeader_def
        length_prefix3_def be16_def)
  moreover have "length ([0x12 :: byte, 0x22, 0x0A, 0x20] @ ephemeralPublic n) = 0x24"
    using assms by simp
  ultimately show ?thesis
    using findField_ClientHello [OF assms] findField_Ephemeral [OF assms] by blast
qed

theorem GenerateClientHello_frame_witness:
  "length (ephemeralPublic demo_handler) = 32 \<and>
   GenerateClientHello demo_handler =
     [0x57, 0x41, 0x06, 0x03, 0x00, 0x00, 0x24, 0x12, 0x22, 0x0A, 0x20] @ replicate 32 0x05"
proof -
  have len: "length (ephemeralPublic demo_handler) = 32"
    by (simp add: demo_handler_ephemeralPublic)
  show ?thesis
    using GenerateClientHello_frame [OF len] len
    by (simp add: demo_handler_ephemeralPublic bytes_of_string_def byte_of_char_def)
qed

section \<open>The initial handshake state\<close>

lemma length_NoiseMode: "length NoiseMode = 32"
  by (simp add: NoiseMode_def bytes_of_string_def)

lemma SHA256_NoiseMode:
  "SHA256 NoiseMode =
     [93, 247, 43, 103, 185, 101, 173, 209, 22, 143, 10, 108, 117, 109, 242, 28,
      32, 79, 126, 100, 252, 104, 43, 230, 163, 171, 75, 104, 44, 141, 182, 75]"
  by code_simp

text \<open>
  C3, as the code has it. The protocol name is exactly 32 bytes long, so
  \<open>initializeState\<close> takes the branch \<open>len(modeBytes) == 32\<close>: the chaining hash starts
  as the name itself, not as its SHA-256. \<open>salt\<close>, \<open>encKey\<close> and \<open>decKey\<close> start as the
  same 32 bytes and both counters as 0. Then the prologue \<open>WA\<close>, 6, 3 and the ephemeral
  public key are mixed in: \<open>h = SHA256(SHA256(name || prologue) || e.public)\<close>.
\<close>

theorem initializeState_starts_from_name:
  "length NoiseMode = 32
   \<and> NoiseMode = bytes_of_string ''Noise_XX_25519_AESGCM_SHA256'' @ [0x00, 0x00, 0x00, 0x00]
   \<and> hash (initializeState_assign n) = NoiseMode
   \<and> salt (initializeState_assign n) = NoiseMode
   \<and> encKey (initializeState_assign n) = NoiseMode
   \<and> decKey (initializeState_assign n) = NoiseMode
   \<and> readCounter (initializeState_assign n) = 0
   \<and> writeCounter (initializeState_assign n) = 0
   \<and> \<not> isFinished (initializeState_assign n)
   \<and> initializeState n =
       (initializeState_assign n)
         \<lparr>hash := SHA256 (SHA256 (NoiseMode @ bytes_of_string ''WA'' @ [0x06, 0x03])
                          @ ephemeralPublic n)\<rparr>"
  by (simp add: length_NoiseMode initializeState_assign_def initializeState_def
      authenticate_def NoiseHeader_def Let_def)
   (simp add: NoiseMode_def)

text \<open>The claim as stated fails: the initial hash is not the SHA-256 of the name.\<close>

theorem initial_hash_is_not_SHA256:
  "hash (initializeState_assign demo_handler) \<noteq> SHA256 NoiseMode"
  by (simp add: initializeState_assign_def length_NoiseMode SHA256_NoiseMode Let_def)
    (simp add: NoiseMode_def bytes_of_string_def byte_of_char_def)

section \<open>Nonces\<close>

lemma be32_inj: "be32 a = be32 b \<Longrightarrow> a = b"
proof (rule bit_word_eqI)
  fix k assume eq: "be32 a = be32 b" and k: "k < LENGTH(32)"
  from eq have b3: "(ucast (drop_bit 24 a) :: byte) = ucast (drop_bit 24 b)"
    and b2: "(ucast (drop_bit 16 a) :: byte) = ucast (drop_bit 16 b)"
    and b1: "(ucast (drop_bit 8 a) :: byte) = ucast (drop_bit 8 b)"
    and b0: "(ucast a :: byte) = ucast b"
    by (simp_all add: be32_def)
  consider "k < 8" | "8 \<le> k" "k < 16" | "16 \<le> k" "k < 24" | "24 \<le> k" "k < 32"
    using k by fastforce
  then show "bit a k = bit b k"
  proof cases
    case 1
    from b0 have "bit (ucast a :: byte) k = bit (ucast b :: byte) k" by simp
    with 1 show ?thesis by (simp add: bit_simps)
  next
    case 2
    from b1 have "bit (ucast (drop_bit 8 a) :: byte) (k - 8) = bit (ucast (drop_bit 8 b) :: byte) (k - 8)"
      by simp
    with 2 show ?thesis by (auto simp add: bit_simps)
  next
    case 3
    from b2 have "bit (ucast (drop_bit 16 a) :: byte) (k - 16) = bit (ucast (drop_bit 16 b) :: byte) (k - 16)"
      by simp
    with 3 show ?thesis by (auto simp add: bit_simps)
  next
    case 4
    from b3 have "bit (ucast (drop_bit 24 a) :: byte) (k - 24) = bit (ucast (drop_bit 24 b) :: byte) (k - 24)"
      by simp
    with 4 show ?thesis by (auto simp add: bit_simps)
  qed
qed

lemma generateIV_inj: "generateIV a = generateIV b \<longleftrightarrow> a = b"
  by (auto simp add: generateIV_def dest: be32_inj)

lemma counter_offset_neq:
  fixes w :: uint32
  assumes "j < 2 ^ 32 - 1"
  shows "w \<noteq> w + 1 + of_nat j"
proof
  assume "w = w + 1 + of_nat j"
  then have "(of_nat (Suc j) :: uint32) = 0"
    by (simp add: add.commute add.assoc)
  then have "2 ^ 32 dvd Suc j"
    by (simp add: word_of_nat_eq_0_iff del: of_nat_Suc)
  then have "2 ^ 32 \<le> Suc j" by (rule dvd_imp_le) simp
  with assms show False by simp
qed


lemma encrypt_fields:
  "encKey (snd (encrypt P n pt)) = encKey n"
  "decKey (snd (encrypt P n pt)) = decKey n"
  "isFinished (snd (encrypt P n pt)) = isFinished n"
  "readCounter (snd (encrypt P n pt)) = readCounter n"
  "writeCounter (snd (encrypt P n pt)) =
     (if aes_key_ok (encKey n) then writeCounter n + 1 else writeCounter n)"
  by (simp_all add: encrypt_def authenticate_def Let_def)

lemma decrypt_fields:
  "encKey (snd (decrypt P n ct)) = encKey n"
  "decKey (snd (decrypt P n ct)) = decKey n"
  "isFinished (snd (decrypt P n ct)) = isFinished n"
  "readCounter (snd (decrypt P n ct)) =
     (if aes_key_ok (decKey n) \<and> isFinished n then readCounter n + 1 else readCounter n)"
  "writeCounter (snd (decrypt P n ct)) =
     (if aes_key_ok (decKey n) \<and> \<not> isFinished n then writeCounter n + 1 else writeCounter n)"
  by (simp_all add: decrypt_def authenticate_def Let_def split: option.splits)

lemma handshake_nonces:
  assumes "\<not> isFinished n" and "length ops \<le> 2 ^ 32"
  shows "distinct (map snd (aead_calls P n ops)) \<and>
         (\<forall>iv \<in> snd ` set (aead_calls P n ops).
            \<exists>j < length ops. iv = generateIV (writeCounter n + of_nat j))"
  using assms
proof (induction ops arbitrary: n)
  case Nil
  then show ?case by simp
next
  case (Cons x ops)
  define n' where "n' = (case x of OpEncrypt pt \<Rightarrow> snd (encrypt P n pt)
                                  | OpDecrypt ct \<Rightarrow> snd (decrypt P n ct))"
  define called where "called = (case x of OpEncrypt pt \<Rightarrow> aes_key_ok (encKey n)
                                       | OpDecrypt ct \<Rightarrow> aes_key_ok (decKey n))"
  define key where "key = (case x of OpEncrypt pt \<Rightarrow> encKey n | OpDecrypt ct \<Rightarrow> decKey n)"
  have nf: "\<not> isFinished n'"
    using Cons.prems(1) by (cases x) (simp_all add: n'_def encrypt_fields decrypt_fields)
  have wc: "writeCounter n' = (if called then writeCounter n + 1 else writeCounter n)"
    using Cons.prems(1)
    by (cases x) (simp_all add: n'_def called_def encrypt_fields decrypt_fields)
  have calls: "aead_calls P n (x # ops) =
      (if called then [(key, generateIV (writeCounter n))] else []) @ aead_calls P n' ops"
    using Cons.prems(1)
    by (cases x)
      (simp_all add: n'_def called_def key_def encrypt_nonce_def decrypt_nonce_def)
  have len: "length ops \<le> 2 ^ 32" and len': "length ops < 2 ^ 32"
    using Cons.prems(2) by simp_all
  note IH = Cons.IH [OF nf len]
  show ?case
  proof (cases called)
    case False
    with IH wc show ?thesis
      by (auto simp add: calls intro: less_SucI)
  next
    case True
    have rest: "\<forall>iv \<in> snd ` set (aead_calls P n' ops).
                 \<exists>j < length ops. iv = generateIV (writeCounter n + 1 + of_nat j)"
      using IH wc True by simp
    have fresh: "generateIV (writeCounter n) \<notin> snd ` set (aead_calls P n' ops)"
    proof
      assume "generateIV (writeCounter n) \<in> snd ` set (aead_calls P n' ops)"
      with rest obtain j where j: "j < length ops"
        and "generateIV (writeCounter n) = generateIV (writeCounter n + 1 + of_nat j)"
        by blast
      then have "writeCounter n = writeCounter n + 1 + of_nat j"
        by (simp add: generateIV_inj)
      moreover have "j < 2 ^ 32 - 1" using j len' by simp
      ultimately show False using counter_offset_neq by blast
    qed
    have mem: "\<forall>iv \<in> snd ` set (aead_calls P n (x # ops)).
                 \<exists>j < length (x # ops). iv = generateIV (writeCounter n + of_nat j)"
    proof
      fix iv assume "iv \<in> snd ` set (aead_calls P n (x # ops))"
      then consider "iv = generateIV (writeCounter n)" | "iv \<in> snd ` set (aead_calls P n' ops)"
        using True by (auto simp add: calls)
      then show "\<exists>j < length (x # ops). iv = generateIV (writeCounter n + of_nat j)"
      proof cases
        case 1
        then have "iv = generateIV (writeCounter n + of_nat 0)" by simp
        then show ?thesis by (metis length_Cons zero_less_Suc)
      next
        case 2
        with rest obtain j where "j < length ops"
          and "iv = generateIV (writeCounter n + 1 + of_nat j)" by blast
        then have "Suc j < length (x # ops)" "iv = generateIV (writeCounter n + of_nat (Suc j))"
          by (simp_all add: add.assoc)
        then show ?thesis by blast
      qed
    qed
    have "distinct (map snd (aead_calls P n (x # ops)))"
      using True IH fresh by (simp add: calls)
    with mem show ?thesis by blast
  qed
qed


lemma transport_nonces:
  assumes "isFinished n" and "encKey n \<noteq> decKey n" and "length ops \<le> 2 ^ 32"
  shows "distinct (aead_calls P n ops) \<and>
         (\<forall>c \<in> set (aead_calls P n ops).
            \<exists>j < length ops. c = (encKey n, generateIV (writeCounter n + of_nat j))
                            \<or> c = (decKey n, generateIV (readCounter n + of_nat j)))"
  using assms
proof (induction ops arbitrary: n)
  case Nil
  then show ?case by simp
next
  case (Cons x ops)
  define n' where "n' = (case x of OpEncrypt pt \<Rightarrow> snd (encrypt P n pt)
                                  | OpDecrypt ct \<Rightarrow> snd (decrypt P n ct))"
  have fin: "isFinished n'" and keys: "encKey n' = encKey n" "decKey n' = decKey n"
    using Cons.prems(1) by (cases x; simp add: n'_def encrypt_fields decrypt_fields)+
  have len: "length ops \<le> 2 ^ 32" and len': "length ops < 2 ^ 32"
    using Cons.prems(3) by simp_all
  have IH: "distinct (aead_calls P n' ops) \<and>
         (\<forall>c \<in> set (aead_calls P n' ops).
            \<exists>j < length ops. c = (encKey n, generateIV (writeCounter n' + of_nat j))
                            \<or> c = (decKey n, generateIV (readCounter n' + of_nat j)))"
    using Cons.IH [OF fin _ len] Cons.prems(2) keys by simp
  have shift: "\<exists>j < length (x # ops). c = (encKey n, generateIV (writeCounter n + of_nat j))
                            \<or> c = (decKey n, generateIV (readCounter n + of_nat j))"
    if "c \<in> set (aead_calls P n' ops)"
      and "writeCounter n' = writeCounter n + a" and "readCounter n' = readCounter n + b"
      and "(a = 1 \<and> b = 0) \<or> (a = 0 \<and> b = 1) \<or> (a = 0 \<and> b = 0)" for c a b
  proof -
    from IH that(1) obtain j where j: "j < length ops"
      and c: "c = (encKey n, generateIV (writeCounter n' + of_nat j))
              \<or> c = (decKey n, generateIV (readCounter n' + of_nat j))" by blast
    have "c = (encKey n, generateIV (writeCounter n + of_nat j))
          \<or> c = (encKey n, generateIV (writeCounter n + of_nat (Suc j)))
          \<or> c = (decKey n, generateIV (readCounter n + of_nat j))
          \<or> c = (decKey n, generateIV (readCounter n + of_nat (Suc j)))"
      using c that(2,3,4) by (auto simp add: add.assoc)
    moreover have "j < length (x # ops)" "Suc j < length (x # ops)" using j by simp_all
    ultimately show ?thesis by blast
  qed
  show ?case
  proof (cases x)
    case (OpEncrypt pt)
    show ?thesis
    proof (cases "aes_key_ok (encKey n)")
      case False
      then have "aead_calls P n (x # ops) = aead_calls P n' ops"
        and "writeCounter n' = writeCounter n + 0" and "readCounter n' = readCounter n + 0"
        by (simp_all add: OpEncrypt n'_def encrypt_fields)
      with IH shift show ?thesis by (metis (no_types, lifting))
    next
      case True
      then have calls: "aead_calls P n (x # ops) =
                  (encKey n, generateIV (writeCounter n)) # aead_calls P n' ops"
        and wc: "writeCounter n' = writeCounter n + 1" and rc: "readCounter n' = readCounter n + 0"
        by (simp_all add: OpEncrypt n'_def encrypt_fields encrypt_nonce_def)
      have fresh: "(encKey n, generateIV (writeCounter n)) \<notin> set (aead_calls P n' ops)"
      proof
        assume "(encKey n, generateIV (writeCounter n)) \<in> set (aead_calls P n' ops)"
        with IH obtain j where j: "j < length ops"
          and "(encKey n, generateIV (writeCounter n)) = (encKey n, generateIV (writeCounter n' + of_nat j))
               \<or> (encKey n, generateIV (writeCounter n)) = (decKey n, generateIV (readCounter n' + of_nat j))"
          by blast
        with Cons.prems(2) wc have "writeCounter n = writeCounter n + 1 + of_nat j"
          by (auto simp add: generateIV_inj)
        moreover have "j < 2 ^ 32 - 1" using j len' by simp
        ultimately show False using counter_offset_neq by blast
      qed
      have "\<exists>j < length (x # ops). c = (encKey n, generateIV (writeCounter n + of_nat j))
                            \<or> c = (decKey n, generateIV (readCounter n + of_nat j))"
        if "c \<in> set (aead_calls P n (x # ops))" for c
      proof (cases "c = (encKey n, generateIV (writeCounter n))")
        case True
        then have "c = (encKey n, generateIV (writeCounter n + of_nat 0))" by simp
        then show ?thesis by (metis length_Cons zero_less_Suc)
      next
        case False
        with that calls have "c \<in> set (aead_calls P n' ops)" by simp
        from shift [OF this wc rc] show ?thesis by simp
      qed
      with IH fresh calls show ?thesis by simp
    qed
  next
    case (OpDecrypt ct)
    show ?thesis
    proof (cases "aes_key_ok (decKey n)")
      case False
      then have "aead_calls P n (x # ops) = aead_calls P n' ops"
        and "writeCounter n' = writeCounter n + 0" and "readCounter n' = readCounter n + 0"
        by (simp_all add: OpDecrypt n'_def decrypt_fields)
      with IH shift show ?thesis by (metis (no_types, lifting))
    next
      case True
      then have calls: "aead_calls P n (x # ops) =
                  (decKey n, generateIV (readCounter n)) # aead_calls P n' ops"
        and wc: "writeCounter n' = writeCounter n + 0" and rc: "readCounter n' = readCounter n + 1"
        using Cons.prems(1)
        by (simp_all add: OpDecrypt n'_def decrypt_fields decrypt_nonce_def)
      have fresh: "(decKey n, generateIV (readCounter n)) \<notin> set (aead_calls P n' ops)"
      proof
        assume "(decKey n, generateIV (readCounter n)) \<in> set (aead_calls P n' ops)"
        with IH obtain j where j: "j < length ops"
          and "(decKey n, generateIV (readCounter n)) = (encKey n, generateIV (writeCounter n' + of_nat j))
               \<or> (decKey n, generateIV (readCounter n)) = (decKey n, generateIV (readCounter n' + of_nat j))"
          by blast
        with Cons.prems(2) rc have "readCounter n = readCounter n + 1 + of_nat j"
          by (auto simp add: generateIV_inj)
        moreover have "j < 2 ^ 32 - 1" using j len' by simp
        ultimately show False using counter_offset_neq by blast
      qed
      have "\<exists>j < length (x # ops). c = (encKey n, generateIV (writeCounter n + of_nat j))
                            \<or> c = (decKey n, generateIV (readCounter n + of_nat j))"
        if "c \<in> set (aead_calls P n (x # ops))" for c
      proof (cases "c = (decKey n, generateIV (readCounter n))")
        case True
        then have "c = (decKey n, generateIV (readCounter n + of_nat 0))" by simp
        then show ?thesis by (metis length_Cons zero_less_Suc)
      next
        case False
        with that calls have "c \<in> set (aead_calls P n' ops)" by simp
        from shift [OF this wc rc] show ?thesis by simp
      qed
      with IH fresh calls show ?thesis by simp
    qed
  qed
qed


lemma demo_transport_fields:
  "isFinished demo_transport" "encKey demo_transport = replicate 32 0x01"
  "decKey demo_transport = replicate 32 0x02" "readCounter demo_transport = 0"
  "writeCounter demo_transport = 0" "hash demo_transport = []"
  by (simp_all add: demo_transport_def finishInit_def demo_crypto_def)

text \<open>
  C6, as the code has it. Every AES-GCM call takes the 12-byte nonce of 8 zero bytes and
  the counter in 4 bytes, big endian; \<open>encrypt\<close> uses \<open>writeCounter\<close> and adds 1 to it
  (a \<open>uint32\<close>, so \<open>0xFFFFFFFF + 1 = 0\<close>); \<open>decrypt\<close> uses \<open>readCounter\<close> once the
  handshake is finished and \<open>writeCounter\<close> before. In a run of at most \<open>2^32\<close> calls of
  \<open>encrypt\<close> and \<open>decrypt\<close> with no key derivation in between, no two AES-GCM calls have
  the same key and nonce, provided that after the handshake the two directions have
  different keys.
\<close>

theorem aead_nonces:
  "generateIV c = replicate 8 0x00 @ be32 c \<and> length (generateIV c) = 12
   \<and> encrypt_nonce n = generateIV (writeCounter n)
   \<and> decrypt_nonce n = generateIV (if isFinished n then readCounter n else writeCounter n)
   \<and> (aes_key_ok (encKey n) \<longrightarrow>
        fst (encrypt P n pt)
          = Inr (gcmSeal P (encKey n) (generateIV (writeCounter n)) pt (hash n))
        \<and> writeCounter (snd (encrypt P n pt)) = writeCounter n + 1)
   \<and> (aes_key_ok (decKey n) \<longrightarrow>
        fst (decrypt P n ct)
          = (case gcmOpen P (decKey n) (decrypt_nonce n) ct (hash n) of
               None \<Rightarrow> Inl ErrGcmOpen | Some plaintext \<Rightarrow> Inr plaintext))
   \<and> (length ops \<le> 2 ^ 32 \<and> (isFinished n \<longrightarrow> encKey n \<noteq> decKey n) \<longrightarrow>
        distinct (aead_calls P n ops))"
proof -
  have "distinct (aead_calls P n ops)"
    if "length ops \<le> 2 ^ 32" and "isFinished n \<longrightarrow> encKey n \<noteq> decKey n"
  proof (cases "isFinished n")
    case True
    with that transport_nonces [of n ops P] show ?thesis by simp
  next
    case False
    from handshake_nonces [OF False that(1), of P]
    have "distinct (map snd (aead_calls P n ops))" by simp
    then show ?thesis by (simp add: distinct_map)
  qed
  moreover have "generateIV c = replicate 8 0x00 @ be32 c" "length (generateIV c) = 12"
    by (simp_all add: generateIV_def be32_def)
  moreover have "encrypt_nonce n = generateIV (writeCounter n)"
    "decrypt_nonce n = generateIV (if isFinished n then readCounter n else writeCounter n)"
    by (simp_all add: encrypt_nonce_def decrypt_nonce_def)
  moreover have "fst (encrypt P n pt)
          = Inr (gcmSeal P (encKey n) (generateIV (writeCounter n)) pt (hash n))
        \<and> writeCounter (snd (encrypt P n pt)) = writeCounter n + 1"
    if "aes_key_ok (encKey n)"
    using that by (simp add: encrypt_def encrypt_nonce_def authenticate_def Let_def)
  moreover have "fst (decrypt P n ct)
          = (case gcmOpen P (decKey n) (decrypt_nonce n) ct (hash n) of
               None \<Rightarrow> Inl ErrGcmOpen | Some plaintext \<Rightarrow> Inr plaintext)"
    if "aes_key_ok (decKey n)"
    using that by (simp add: decrypt_def decrypt_nonce_def Let_def split: option.splits)
  ultimately show ?thesis by blast
qed

theorem aead_nonces_witness:
  "aes_key_ok (encKey demo_transport)
   \<and> writeCounter (snd (encrypt demo_crypto demo_transport [0x01])) = 1
   \<and> length [OpEncrypt [0x01], OpDecrypt [0x02], OpEncrypt [0x03]] \<le> (2 :: nat) ^ 32
   \<and> isFinished demo_transport \<and> encKey demo_transport \<noteq> decKey demo_transport
   \<and> aead_calls demo_crypto demo_transport [OpEncrypt [0x01], OpDecrypt [0x02], OpEncrypt [0x03]]
       = [(replicate 32 0x01, replicate 8 0x00 @ [0x00, 0x00, 0x00, 0x00]),
          (replicate 32 0x02, replicate 8 0x00 @ [0x00, 0x00, 0x00, 0x00]),
          (replicate 32 0x01, replicate 8 0x00 @ [0x00, 0x00, 0x00, 0x01])]
   \<and> distinct (aead_calls demo_crypto demo_transport
                  [OpEncrypt [0x01], OpDecrypt [0x02], OpEncrypt [0x03]])"
proof -
  have ok: "aes_key_ok (encKey demo_transport)"
    by (simp add: demo_transport_fields aes_key_ok_def)
  have ne: "isFinished demo_transport \<longrightarrow> encKey demo_transport \<noteq> decKey demo_transport"
    by (simp add: demo_transport_fields)
  have len: "length [OpEncrypt [0x01], OpDecrypt [0x02], OpEncrypt [0x03]] \<le> (2 :: nat) ^ 32"
    by simp
  have calls: "aead_calls demo_crypto demo_transport
                 [OpEncrypt [0x01], OpDecrypt [0x02], OpEncrypt [0x03]]
       = [(replicate 32 0x01, replicate 8 0x00 @ [0x00, 0x00, 0x00, 0x00]),
          (replicate 32 0x02, replicate 8 0x00 @ [0x00, 0x00, 0x00, 0x00]),
          (replicate 32 0x01, replicate 8 0x00 @ [0x00, 0x00, 0x00, 0x01])]"
    by (simp add: demo_transport_fields aes_key_ok_def encrypt_nonce_def decrypt_nonce_def
        encrypt_fields decrypt_fields generateIV_def be32_def)
  show ?thesis
    using aead_nonces [where c = 0 and n = demo_transport and P = demo_crypto and pt = "[0x01]"
        and ct = "[0x02]" and ops = "[OpEncrypt [0x01], OpDecrypt [0x02], OpEncrypt [0x03]]"]
      ok ne len calls
    by (simp add: demo_transport_fields)
qed

lemma aead_calls_all_encrypt:
  assumes "aes_key_ok (encKey n)"
  shows "aead_calls P n (replicate k (OpEncrypt pt)) =
           map (\<lambda>j. (encKey n, generateIV (writeCounter n + of_nat j))) [0..<k]"
  using assms
proof (induction k arbitrary: n)
  case 0
  then show ?case by simp
next
  case (Suc k)
  let ?n' = "snd (encrypt P n pt)"
  have ok': "aes_key_ok (encKey ?n')" using Suc.prems by (simp add: encrypt_fields)
  have "aead_calls P n (replicate (Suc k) (OpEncrypt pt)) =
          (encKey n, generateIV (writeCounter n)) # aead_calls P ?n' (replicate k (OpEncrypt pt))"
    using Suc.prems by (simp add: encrypt_nonce_def)
  also have "aead_calls P ?n' (replicate k (OpEncrypt pt)) =
          map (\<lambda>j. (encKey n, generateIV (writeCounter n + of_nat (Suc j)))) [0..<k]"
    using Suc.IH [OF ok'] Suc.prems by (simp add: encrypt_fields add.assoc)
  also have "(encKey n, generateIV (writeCounter n))
               # map (\<lambda>j. (encKey n, generateIV (writeCounter n + of_nat (Suc j)))) [0..<k] =
             map (\<lambda>j. (encKey n, generateIV (writeCounter n + of_nat j))) [0..<Suc k]"
    by (simp add: upt_conv_Cons map_Suc_upt [symmetric] del: upt_Suc of_nat_Suc)
  finally show ?case .
qed

text \<open>The claim as stated fails: nothing stops the counter at \<open>2^32\<close>, and the call
  number \<open>2^32 + 1\<close> under one key has the nonce of the first.\<close>

theorem nonce_reused_after_wrap:
  "\<not> distinct (aead_calls demo_crypto demo_transport (replicate (2 ^ 32 + 1) (OpEncrypt [])))"
proof -
  let ?f = "\<lambda>j. (encKey demo_transport, generateIV (writeCounter demo_transport + of_nat j))"
  let ?xs = "aead_calls demo_crypto demo_transport (replicate (2 ^ 32 + 1) (OpEncrypt []))"
  have ok: "aes_key_ok (encKey demo_transport)"
    by (simp add: demo_transport_fields aes_key_ok_def)
  have xs: "?xs = map ?f [0..<2 ^ 32 + 1]"
    by (rule aead_calls_all_encrypt [OF ok])
  have z: "(of_nat (2 ^ 32) :: uint32) = 0" by simp
  have same: "?f 0 = ?f (2 ^ 32)" by (simp only: z) simp
  have "?xs ! 0 = ?f 0" "?xs ! (2 ^ 32) = ?f (2 ^ 32)"
    unfolding xs by (simp_all del: upt_Suc)
  with same have "?xs ! 0 = ?xs ! (2 ^ 32)" by simp
  moreover have "0 < length ?xs" "2 ^ 32 < length ?xs" "(0::nat) \<noteq> 2 ^ 32"
    unfolding xs by simp_all
  ultimately show ?thesis
    unfolding distinct_conv_nth by blast
qed

section \<open>Session manager\<close>

lemma sm_step_key_is_ID:
  assumes "\<forall>k c. sessions sm k = Some c \<longrightarrow> ID c = k"
  shows "\<forall>k c. sessions (sm_step sm x) k = Some c \<longrightarrow> ID c = k"
proof (cases x)
  case (Create sessionID now)
  then show ?thesis
    using assms by (auto simp add: CreateSession_def NewWAClient_def Let_def split: option.splits)
next
  case (Delete sessionID)
  then show ?thesis
    using assms by (auto simp add: DeleteSession_def split: option.splits)
qed

lemma sm_run_key_is_ID:
  assumes "\<forall>k c. sessions sm k = Some c \<longrightarrow> ID c = k"
  shows "\<forall>k c. sessions (sm_run xs sm) k = Some c \<longrightarrow> ID c = k"
  using assms unfolding sm_run_def
proof (induction xs arbitrary: sm)
  case Nil
  then show ?case by simp
next
  case (Cons x xs)
  show ?case
    using Cons.IH [OF sm_step_key_is_ID [OF Cons.prems]] by simp
qed

lemma sessions_key_is_ID:
  "\<forall>k c. sessions (sm_run xs (NewSessionManager dir)) k = Some c \<longrightarrow> ID c = k"
  by (rule sm_run_key_is_ID) (simp add: NewSessionManager_def)

text \<open>
  C9. After any sequence of \<open>CreateSession\<close> and \<open>DeleteSession\<close> on a new manager, every
  client is stored under its own identifier, so no two clients share one;
  \<open>CreateSession\<close> with an identifier that is present returns \<open>ErrSessionExists\<close> and
  \<open>DeleteSession\<close> with one that is absent returns \<open>ErrSessionNotFound\<close>, and both
  leave the manager as it was.
\<close>

theorem session_ids_unique:
  fixes xs :: "sm_op list" and dir :: string
  defines "sm \<equiv> sm_run xs (NewSessionManager dir)"
  shows "unique_ids sm
         \<and> (\<forall>k c. sessions sm k = Some c \<longrightarrow> ID c = k)
         \<and> (\<forall>sessionID now. sessions sm sessionID \<noteq> None \<longrightarrow>
               CreateSession sm sessionID now = (Inl ErrSessionExists, sm))
         \<and> (\<forall>sessionID. sessions sm sessionID = None \<longrightarrow>
               DeleteSession sm sessionID = (Inl ErrSessionNotFound, sm))"
proof -
  have key: "\<forall>k c. sessions sm k = Some c \<longrightarrow> ID c = k"
    unfolding sm_def by (rule sessions_key_is_ID)
  have "unique_ids sm"
    unfolding unique_ids_def
  proof (intro allI impI)
    fix k1 k2 c1 c2
    assume "sessions sm k1 = Some c1 \<and> sessions sm k2 = Some c2 \<and> k1 \<noteq> k2"
    with key have "ID c1 = k1" "ID c2 = k2" "k1 \<noteq> k2" by auto
    then show "ID c1 \<noteq> ID c2" by simp
  qed
  moreover have "\<forall>sessionID now. sessions sm sessionID \<noteq> None \<longrightarrow>
               CreateSession sm sessionID now = (Inl ErrSessionExists, sm)"
    by (auto simp add: CreateSession_def)
  moreover have "\<forall>sessionID. sessions sm sessionID = None \<longrightarrow>
               DeleteSession sm sessionID = (Inl ErrSessionNotFound, sm)"
    by (simp add: DeleteSession_def)
  ultimately show ?thesis using key by blast
qed

lemma demo_ops_sessions:
  "sessions (sm_run demo_ops (NewSessionManager ''./sessions'')) =
     [''s1'' \<mapsto> NewWAClient ''s1'' ''./sessions'' 1]"
  by (simp add: demo_ops_def sm_run_def NewSessionManager_def CreateSession_def
      DeleteSession_def Let_def fun_eq_iff)

theorem session_ids_unique_witness:
  "sessions (sm_run demo_ops (NewSessionManager ''./sessions'')) ''s1''
     = Some (NewWAClient ''s1'' ''./sessions'' 1)
   \<and> ID (NewWAClient ''s1'' ''./sessions'' 1) = ''s1''
   \<and> CreateSession (sm_run demo_ops (NewSessionManager ''./sessions'')) ''s1'' 4
     = (Inl ErrSessionExists, sm_run demo_ops (NewSessionManager ''./sessions''))
   \<and> sessions (sm_run demo_ops (NewSessionManager ''./sessions'')) ''s2'' = None
   \<and> DeleteSession (sm_run demo_ops (NewSessionManager ''./sessions'')) ''s2''
     = (Inl ErrSessionNotFound, sm_run demo_ops (NewSessionManager ''./sessions''))"
proof -
  have s1: "sessions (sm_run demo_ops (NewSessionManager ''./sessions'')) ''s1''
     = Some (NewWAClient ''s1'' ''./sessions'' 1)"
    by (simp add: demo_ops_sessions)
  have s2: "sessions (sm_run demo_ops (NewSessionManager ''./sessions'')) ''s2'' = None"
    by (simp add: demo_ops_sessions)
  show ?thesis
    using session_ids_unique [of demo_ops "''./sessions''"] s1 s2 by auto
qed

section \<open>The public Decrypt\<close>

text \<open>
  C10. \<open>Decrypt\<close> returns a byte slice and nothing else. While the handshake is not
  finished it returns its input and leaves the handler as it was; when the handshake is
  finished and AES-GCM rejects the input, it returns the input as well.
\<close>

theorem Decrypt_returns_input:
  "(\<not> isFinished n \<longrightarrow> Decrypt P n data = (data, n))
   \<and> (isFinished n \<and> gcmOpen P (decKey n) (generateIV (readCounter n)) data (hash n) = None
        \<longrightarrow> fst (Decrypt P n data) = data)"
  by (auto simp add: Decrypt_def decrypt_def decrypt_nonce_def Let_def split: option.splits)

theorem Decrypt_returns_input_witness:
  "\<not> isFinished demo_handler
   \<and> Decrypt demo_crypto demo_handler [0x01, 0x02, 0x03] = ([0x01, 0x02, 0x03], demo_handler)
   \<and> isFinished demo_transport
   \<and> gcmOpen demo_crypto (decKey demo_transport) (generateIV (readCounter demo_transport))
        [0x01, 0x02, 0x03] (hash demo_transport) = None
   \<and> fst (Decrypt demo_crypto demo_transport [0x01, 0x02, 0x03]) = [0x01, 0x02, 0x03]"
proof -
  have a: "\<not> isFinished demo_handler"
    by (simp add: demo_handler_def NewNoiseHandler_def initializeState_def
        initializeState_assign_def authenticate_def Let_def)
  have b: "gcmOpen demo_crypto (decKey demo_transport) (generateIV (readCounter demo_transport))
        [0x01, 0x02, 0x03] (hash demo_transport) = None"
    by (simp add: demo_crypto_def)
  show ?thesis
    using Decrypt_returns_input [of demo_handler demo_crypto "[0x01, 0x02, 0x03]"]
      Decrypt_returns_input [of demo_transport demo_crypto "[0x01, 0x02, 0x03]"]
      a b demo_transport_fields(1)
    by simp
qed

section \<open>A rejected server static key\<close>

lemma DecodeServerHello_demo:
  "DecodeServerHello demo_server_hello =
     Some (Inr \<lparr>Ephemeral = replicate 32 0x07, Static = replicate 48 0x08, Payload = []\<rparr>)"
  by code_simp

lemma demo_handler_fields:
  "ephemeralPrivate demo_handler = replicate 32 0x03"
  "staticPrivate demo_handler = replicate 32 0x04"
  "staticPublic demo_handler = replicate 32 0x05"
  "salt demo_handler = NoiseMode"
  "\<not> isFinished demo_handler"
  by (simp_all add: demo_handler_def NewNoiseHandler_def initializeState_def
      initializeState_assign_def authenticate_def demo_crypto_def Let_def length_NoiseMode)

text \<open>
  C2, as the code has it. When AES-GCM rejects the encrypted server static key,
  \<open>decrypt\<close> returns the error to \<open>ProcessServerHello\<close> (the hash is not mixed, the
  counter has advanced), and \<open>ProcessServerHello\<close> drops it: it skips the second
  Diffie-Hellman step and returns nil. The handler is left with the keys of the first
  step, \<open>writeCounter\<close> 1, and the handshake goes on.
\<close>

theorem ProcessServerHello_drops_decrypt_error:
  assumes "32 \<le> length data"
    and "DecodeServerHello data = Some (Inr sh)"
    and "length (Ephemeral sh) = 32"
    and "\<not> isFinished n"
    and "length (ephemeralPrivate n) = 32"
    and "x25519 P (ephemeralPrivate n) (Ephemeral sh) = Some shared1"
    and "hkdf64 P shared1 (salt n) = Some key"
    and "aes_key_ok (drop 32 key)"
    and "48 \<le> length (Static sh)"
    and "gcmOpen P (drop 32 key) (generateIV 0) (take 48 (Static sh))
           (SHA256 (hash n @ Ephemeral sh)) = None"
  shows "decrypt P
           (n\<lparr>serverEphemeral := Ephemeral sh, hash := SHA256 (hash n @ Ephemeral sh),
              salt := take 32 key, encKey := drop 32 key, decKey := drop 32 key,
              readCounter := 0, writeCounter := 0\<rparr>)
           (take 48 (Static sh))
         = (Inl ErrGcmOpen,
            n\<lparr>serverEphemeral := Ephemeral sh, hash := SHA256 (hash n @ Ephemeral sh),
              salt := take 32 key, encKey := drop 32 key, decKey := drop 32 key,
              readCounter := 0, writeCounter := 1\<rparr>)
       \<and> ProcessServerHello P n data
         = Some (Inr (),
            n\<lparr>serverEphemeral := Ephemeral sh, hash := SHA256 (hash n @ Ephemeral sh),
              salt := take 32 key, encKey := drop 32 key, decKey := drop 32 key,
              readCounter := 0, writeCounter := 1\<rparr>)"
  using assms
  by (simp add: ProcessServerHello_def ProcessServerHello_fields_def decrypt_def
      decrypt_nonce_def mixIntoKey_def dh_def authenticate_def Let_def)


theorem ProcessServerHello_drops_decrypt_error_witness:
  "32 \<le> length demo_server_hello
   \<and> DecodeServerHello demo_server_hello =
       Some (Inr \<lparr>Ephemeral = replicate 32 0x07, Static = replicate 48 0x08, Payload = []\<rparr>)
   \<and> gcmOpen demo_crypto (replicate 32 0x02) (generateIV 0) (replicate 48 0x08)
         (SHA256 (hash demo_handler @ replicate 32 0x07)) = None
   \<and> ProcessServerHello demo_crypto demo_handler demo_server_hello
       = Some (Inr (),
           demo_handler\<lparr>serverEphemeral := replicate 32 0x07,
             hash := SHA256 (hash demo_handler @ replicate 32 0x07),
             salt := replicate 32 0x01, encKey := replicate 32 0x02, decKey := replicate 32 0x02,
             readCounter := 0, writeCounter := 1\<rparr>)"
proof -
  let ?sh = "\<lparr>Ephemeral = replicate 32 0x07, Static = replicate 48 0x08, Payload = []\<rparr>"
  let ?key = "replicate 32 0x01 @ replicate 32 (0x02 :: byte)"
  have h1: "32 \<le> length demo_server_hello"
    by (simp add: demo_server_hello_def)
  have h3: "length (Ephemeral ?sh) = 32" by simp
  have h5: "length (ephemeralPrivate demo_handler) = 32"
    by (simp add: demo_handler_fields)
  have h6: "x25519 demo_crypto (ephemeralPrivate demo_handler) (Ephemeral ?sh)
              = Some (replicate 32 0x09)"
    by (simp add: demo_crypto_def)
  have h7: "hkdf64 demo_crypto (replicate 32 0x09) (salt demo_handler) = Some ?key"
    by (simp add: demo_crypto_def)
  have h8: "aes_key_ok (drop 32 ?key)"
    by (simp add: aes_key_ok_def)
  have h9: "48 \<le> length (Static ?sh)" by simp
  have h10: "gcmOpen demo_crypto (drop 32 ?key) (generateIV 0) (take 48 (Static ?sh))
           (SHA256 (hash demo_handler @ Ephemeral ?sh)) = None"
    by (simp add: demo_crypto_def)
  show ?thesis
    using ProcessServerHello_drops_decrypt_error
      [OF h1 DecodeServerHello_demo h3 demo_handler_fields(5) h5 h6 h7 h8 h9 h10]
      h1 DecodeServerHello_demo h10
    by simp
qed

lemma demo_after_hello_finish:
  "GenerateClientFinish demo_crypto
     (demo_handler\<lparr>serverEphemeral := replicate 32 0x07,
             hash := SHA256 (hash demo_handler @ replicate 32 0x07),
             salt := replicate 32 0x01, encKey := replicate 32 0x02, decKey := replicate 32 0x02,
             readCounter := 0, writeCounter := 1\<rparr>)
   = (Inr (EncodeClientFinish (replicate 32 0x05 @ replicate 16 0x00) []),
      demo_handler\<lparr>serverEphemeral := replicate 32 0x07, hash := [],
             salt := replicate 32 0x01, encKey := replicate 32 0x01, decKey := replicate 32 0x02,
             readCounter := 0, writeCounter := 0, isFinished := True\<rparr>)"
  by (simp add: GenerateClientFinish_def encrypt_def encrypt_nonce_def aes_key_ok_def
      authenticate_def dh_def mixIntoKey_def finishInit_def demo_handler_fields Let_def
      demo_crypto_def)

text \<open>The claim as stated fails: with a static key that AES-GCM rejects,
  \<open>ProcessServerHello\<close> reports no error and \<open>GenerateClientFinish\<close> completes the
  handshake.\<close>

theorem handshake_completes_after_failed_tag:
  "map_option fst (ProcessServerHello demo_crypto demo_handler demo_server_hello) = Some (Inr ())
   \<and> fst (decrypt demo_crypto
          (demo_handler\<lparr>serverEphemeral := replicate 32 0x07,
             hash := SHA256 (hash demo_handler @ replicate 32 0x07),
             salt := replicate 32 0x01, encKey := replicate 32 0x02, decKey := replicate 32 0x02,
             readCounter := 0, writeCounter := 0\<rparr>)
          (replicate 48 0x08)) = Inl ErrGcmOpen
   \<and> fst (GenerateClientFinish demo_crypto
          (snd (the (ProcessServerHello demo_crypto demo_handler demo_server_hello))))
       = Inr (EncodeClientFinish (replicate 32 0x05 @ replicate 16 0x00) [])
   \<and> isFinished (snd (GenerateClientFinish demo_crypto
          (snd (the (ProcessServerHello demo_crypto demo_handler demo_server_hello)))))"
proof -
  have psh: "ProcessServerHello demo_crypto demo_handler demo_server_hello
       = Some (Inr (),
           demo_handler\<lparr>serverEphemeral := replicate 32 0x07,
             hash := SHA256 (hash demo_handler @ replicate 32 0x07),
             salt := replicate 32 0x01, encKey := replicate 32 0x02, decKey := replicate 32 0x02,
             readCounter := 0, writeCounter := 1\<rparr>)"
    by (simp add: ProcessServerHello_def DecodeServerHello_demo ProcessServerHello_fields_def
        decrypt_def decrypt_nonce_def mixIntoKey_def dh_def authenticate_def aes_key_ok_def
        demo_handler_fields Let_def demo_crypto_def)
      (simp add: demo_server_hello_def)
  have dec: "fst (decrypt demo_crypto
          (demo_handler\<lparr>serverEphemeral := replicate 32 0x07,
             hash := SHA256 (hash demo_handler @ replicate 32 0x07),
             salt := replicate 32 0x01, encKey := replicate 32 0x02, decKey := replicate 32 0x02,
             readCounter := 0, writeCounter := 0\<rparr>)
          (replicate 48 0x08)) = Inl ErrGcmOpen"
    by (simp add: decrypt_def aes_key_ok_def demo_crypto_def Let_def)
  show ?thesis
    by (simp add: psh dec demo_after_hello_finish)
qed

section \<open>Binary nodes and strings that do not come back\<close>

text \<open>The decoder returns on every input: the depth given by \<open>DecodeBinaryNode\<close>
  is enough.\<close>

lemma reader_step_refl: "reader_step r r"
  by (simp add: reader_step_def)

lemma reader_step_trans: "reader_step r r' \<Longrightarrow> reader_step r' r'' \<Longrightarrow> reader_step r r''"
  by (auto simp add: reader_step_def)

lemma ReadByte_step: "ReadByte r = (res, r') \<Longrightarrow> reader_step r r'"
  by (auto simp add: ReadByte_def reader_step_def reader_ok_def split: if_splits)

lemma ReadByte_Some: "ReadByte r = (Some b, r') \<Longrightarrow> r_i r' = Suc (r_i r)"
  by (auto simp add: ReadByte_def split: if_splits)

lemma Read_step: "Read r n = (buf, r') \<Longrightarrow> reader_step r r'"
  by (auto simp add: Read_def reader_step_def reader_ok_def Let_def split: if_splits)

lemma readUint16_step: "readUint16 r = (v, r') \<Longrightarrow> reader_step r r'"
  by (auto simp add: readUint16_def reader_step_def reader_ok_def Let_def split: if_splits)

lemma readUint32_step: "readUint32 r = (v, r') \<Longrightarrow> reader_step r r'"
  by (auto simp add: readUint32_def reader_step_def reader_ok_def Let_def split: if_splits)

lemma decodeString_step: "decodeString r = (res, r') \<Longrightarrow> reader_step r r'"
  unfolding decodeString_def
  by (auto split: prod.splits option.splits if_splits)
    (blast intro: reader_step_trans ReadByte_step Read_step readUint16_step)+

lemma decodeString_Inr:
  "decodeString r = (Inr s, r') \<Longrightarrow> Suc (r_i r) \<le> r_i r'"
  unfolding decodeString_def
  by (auto split: prod.splits option.splits if_splits
      dest!: ReadByte_Some Read_step readUint16_step simp add: reader_step_def)

lemma decodeBytes_step: "decodeBytes r = (res, r') \<Longrightarrow> reader_step r r'"
  unfolding decodeBytes_def
  by (auto split: prod.splits option.splits if_splits)
    (blast intro: reader_step_trans ReadByte_step Read_step readUint32_step)+

lemma decodeAttrs_step: "decodeAttrs k r attrs = (res, r') \<Longrightarrow> reader_step r r'"
proof (induction k arbitrary: r attrs)
  case 0
  then show ?case by (simp add: reader_step_refl)
next
  case (Suc k)
  then show ?case
    by (auto split: prod.splits sum.splits)
      (blast intro: reader_step_trans decodeString_step)+
qed


lemma decodeNode_returns_step:
  assumes children: "\<And>count r. reader_ok r \<Longrightarrow> length (r_s r) - r_i r < depth \<Longrightarrow>
             \<exists>res r'. decodeChildren depth count r = Some (res, r') \<and> reader_step r r'"
    and ok: "reader_ok r" and fuel: "length (r_s r) - r_i r < Suc depth"
  shows "\<exists>res r'. decodeNode (Suc depth) r = Some (res, r') \<and> reader_step r r'"
proof (cases "ReadByte r")
  case (Pair d r1)
  note rb = ReadByte_step [OF Pair]
  show ?thesis
  proof (cases d)
    case None
    with Pair rb show ?thesis by simp
  next
    case (Some descriptor)
    have i1: "r_i r1 = Suc (r_i r)" using Pair Some by (auto dest: ReadByte_Some)
    show ?thesis
    proof (cases "descriptor = 0")
      case True
      with Pair Some rb show ?thesis by simp
    next
      case nz: False
      obtain t r2 where ds: "decodeString r1 = (t, r2)" by (cases "decodeString r1")
      have s12: "reader_step r1 r2" by (rule decodeString_step [OF ds])
      show ?thesis
      proof (cases t)
        case (Inl e)
        with Pair Some nz ds rb s12 show ?thesis
          by (auto simp add: Let_def intro: reader_step_trans)
      next
        case (Inr tag)
        obtain a r3 where da: "decodeAttrs (unat (drop_bit 1 descriptor)) r2 [] = (a, r3)"
          by (cases "decodeAttrs (unat (drop_bit 1 descriptor)) r2 []")
        have s23: "reader_step r2 r3" by (rule decodeAttrs_step [OF da])
        have s03: "reader_step r r3"
          using rb s12 s23 by (blast intro: reader_step_trans)
        have i3: "Suc (r_i r) \<le> r_i r3" and ok3: "reader_ok r3" and d3: "r_s r3 = r_s r"
          using rb s12 s23 i1 ok by (auto simp add: reader_step_def)
        show ?thesis
        proof (cases a)
          case (Inl e)
          with Pair Some nz ds Inr da s03 show ?thesis
            by (auto simp add: Let_def)
        next
          case attrs: (Inr attrs)
          show ?thesis
          proof (cases "descriptor AND 1 = 1")
            case False
            with Pair Some nz ds Inr da attrs s03 show ?thesis
              by (auto simp add: Let_def)
          next
            case hasContent: True
            obtain ct r4 where r4: "ReadByte r3 = (ct, r4)" by (cases "ReadByte r3")
            define r5 where "r5 = UnreadByte r4"
            define contentType where "contentType = (case ct of None \<Rightarrow> 0 | Some b \<Rightarrow> b)"
            have s05: "reader_step r r5" and ok5: "reader_ok r5"
              using r4 i3 ok3 d3
              by (auto simp add: r5_def UnreadByte_def ReadByte_def reader_step_def reader_ok_def
                  split: if_splits)
            have i5: "ct = None \<longrightarrow> Suc (r_i r5) = r_i r3 \<and> r_i r5 < length (r_s r5)"
              and i5': "ct \<noteq> None \<longrightarrow> r_i r5 = r_i r3"
              using r4 i3 ok3 d3
              by (auto simp add: r5_def UnreadByte_def ReadByte_def reader_ok_def split: if_splits)
            show ?thesis
            proof (cases "contentType < 128")
              case False
              obtain b r6 where db: "decodeBytes r5 = (b, r6)" by (cases "decodeBytes r5")
              have "reader_step r r6"
                using s05 decodeBytes_step [OF db] by (blast intro: reader_step_trans)
              with Pair Some nz ds Inr da attrs hasContent r4 False db show ?thesis
                by (auto simp add: Let_def r5_def contentType_def split: sum.splits)
            next
              case list: True
              obtain cnt r6 where r6: "ReadByte r5 = (cnt, r6)" by (cases "ReadByte r5")
              define count where "count = (case cnt of None \<Rightarrow> 0 | Some b \<Rightarrow> unat b)"
              have s56: "reader_step r5 r6" by (rule ReadByte_step [OF r6])
              have ok6: "reader_ok r6" using s56 ok5 by (simp add: reader_step_def)
              have i6: "Suc (r_i r) \<le> r_i r6"
              proof (cases ct)
                case None
                with i5 r6 have "r_i r6 = Suc (r_i r5)"
                  by (auto simp add: ReadByte_def split: if_splits)
                with None i5 i3 show ?thesis by simp
              next
                case (Some c)
                with i5' i3 s56 show ?thesis by (simp add: reader_step_def)
              qed
              have d6: "r_s r6 = r_s r" using s05 s56 by (simp add: reader_step_def)
              have "length (r_s r6) - r_i r6 < depth"
                using fuel i6 ok6 d6 by (simp add: reader_ok_def)
              from children [OF ok6 this, of count]
              obtain res r7 where ch: "decodeChildren depth count r6 = Some (res, r7)"
                and s67: "reader_step r6 r7" by blast
              have "reader_step r r7"
                using s05 s56 s67 by (blast intro: reader_step_trans)
              with Pair Some nz ds Inr da attrs hasContent r4 list r6 ch show ?thesis
                by (auto simp add: Let_def r5_def contentType_def count_def split: sum.splits)
            qed
          qed
        qed
      qed
    qed
  qed
qed

lemma decodeChildren_returns_step:
  assumes node: "\<And>r. reader_ok r \<Longrightarrow> length (r_s r) - r_i r < depth \<Longrightarrow>
             \<exists>res r'. decodeNode depth r = Some (res, r') \<and> reader_step r r'"
    and ok: "reader_ok r" and fuel: "length (r_s r) - r_i r < depth"
  shows "\<exists>res r'. decodeChildren depth count r = Some (res, r') \<and> reader_step r r'"
  using ok fuel
proof (induction count arbitrary: r)
  case 0
  then show ?case by (simp add: reader_step_refl)
next
  case (Suc k)
  from node [OF Suc.prems] obtain res r1 where n: "decodeNode depth r = Some (res, r1)"
    and s1: "reader_step r r1" by blast
  have ok1: "reader_ok r1" and f1: "length (r_s r1) - r_i r1 < depth"
    using s1 Suc.prems by (auto simp add: reader_step_def)
  from Suc.IH [OF ok1 f1] obtain res2 r2 where c: "decodeChildren depth k r1 = Some (res2, r2)"
    and s2: "reader_step r1 r2" by blast
  have "reader_step r r2" using s1 s2 by (rule reader_step_trans)
  with n c s1 show ?case
    by (auto split: sum.splits)
qed

lemma decodeNode_returns:
  "reader_ok r \<Longrightarrow> length (r_s r) - r_i r < depth \<Longrightarrow>
     \<exists>res r'. decodeNode depth r = Some (res, r') \<and> reader_step r r'"
proof (induction depth arbitrary: r)
  case 0
  then show ?case by simp
next
  case (Suc depth)
  show ?case
  proof (rule decodeNode_returns_step [OF _ Suc.prems])
    fix count r
    assume "reader_ok r" and "length (r_s r) - r_i r < depth"
    then show "\<exists>res r'. decodeChildren depth count r = Some (res, r') \<and> reader_step r r'"
      using Suc.IH by (intro decodeChildren_returns_step) auto
  qed
qed

lemma DecodeBinaryNode_returns: "\<exists>res. DecodeBinaryNode data = Some res"
proof -
  have "reader_ok (NewReader data)" "length (r_s (NewReader data)) - r_i (NewReader data) < Suc (length data)"
    by (simp_all add: reader_ok_def NewReader_def)
  from decodeNode_returns [OF this] show ?thesis
    by (auto simp add: DecodeBinaryNode_def)
qed

text \<open>
  C1. The round trip fails on the code. A node without attributes and without content is
  encoded with the descriptor byte 0, which \<open>decodeNode\<close> reads as the nil node; a
  string content, which \<open>decodeNode\<close> has no case for, and a byte content shorter than 128
  bytes are read as a list of children.
\<close>

theorem node_roundtrip_fails:
  "EncodeBinaryNode (Some (BinaryNode ''iq'' [] CNil)) = [0x00, 0x9C]
   \<and> DecodeBinaryNode (EncodeBinaryNode (Some (BinaryNode ''iq'' [] CNil))) = Some (Inr None)
   \<and> DecodeBinaryNode (EncodeBinaryNode (Some (BinaryNode ''iq'' [(''id'', ''7'')] (CString ''hello''))))
       = Some (Inl EOF)
   \<and> DecodeBinaryNode (EncodeBinaryNode (Some (BinaryNode ''iq'' [(''id'', ''7'')] (CBytes [0x01, 0x02, 0x03]))))
       = Some (Inl EOF)"
  by code_simp

text \<open>
  C5. The dictionary has 329 entries and the raw length byte shares its values with the
  dictionary indices: a string of 48 bytes that is not in the dictionary is encoded with
  the length byte 48 and decoded as entry 48; the entry at index 256 is encoded as the
  byte 0 and decoded as the empty string.
\<close>

theorem string_codec_collides:
  "replicate 48 CHR ''a'' \<notin> set tagDictionary
   \<and> encodeString (replicate 48 CHR ''a'') = 0x30 # replicate 48 0x61
   \<and> tagDictionary ! 0x30 = ''1''
   \<and> fst (decodeString (NewReader (encodeString (replicate 48 CHR ''a'')))) = Inr ''1''
   \<and> tagDictionary ! 256 = ''serial''
   \<and> encodeString ''serial'' = [0x00]
   \<and> fst (decodeString (NewReader (encodeString ''serial''))) = Inr ''''"
  by code_simp

section \<open>Base64 of the pairing string\<close>

lemma upt_6: "[0..<6] = [0, 1, 2, 3, 4, 5 :: nat]"
  by (simp add: upt_conv_Cons)

lemma numeral_3F_mask: "(0x3F :: 'a::len word) = mask 6"
  by (simp add: mask_eq_exp_minus_1)

lemma byte_high_bit: "8 \<le> k \<Longrightarrow> \<not> bit (y :: byte) k"
  using bit_imp_le_length [of y k] by auto

lemma group_value_bits:
  fixes w :: uint32
  shows "group_value [bit w 5, bit w 4, bit w 3, bit w 2, bit w 1, bit w 0] = unat (w AND 0x3F)"
proof -
  have "rev [bit w 5, bit w 4, bit w 3, bit w 2, bit w 1, bit w 0] = map (bit (unat w)) [0..<6]"
    by (simp add: upt_6 bit_unsigned_iff)
  then have "group_value [bit w 5, bit w 4, bit w 3, bit w 2, bit w 1, bit w 0] = take_bit 6 (unat w)"
    unfolding group_value_def by (simp only: horner_sum_bit_eq_take_bit)
  also have "\<dots> = unat (take_bit 6 w)"
    by (simp add: unsigned_take_bit_eq)
  also have "take_bit 6 w = w AND 0x3F"
    by (simp only: numeral_3F_mask take_bit_eq_mask)
  finally show ?thesis .
qed

lemma groups_of_three:
  fixes x y z :: byte
  defines "b \<equiv> push_bit 16 (ucast x :: uint32) OR push_bit 8 (ucast y) OR ucast z"
  shows "group_value [bit x 7, bit x 6, bit x 5, bit x 4, bit x 3, bit x 2] = unat (drop_bit 18 b AND 0x3F)"
    and "group_value [bit x 1, bit x 0, bit y 7, bit y 6, bit y 5, bit y 4] = unat (drop_bit 12 b AND 0x3F)"
    and "group_value [bit y 3, bit y 2, bit y 1, bit y 0, bit z 7, bit z 6] = unat (drop_bit 6 b AND 0x3F)"
    and "group_value [bit z 5, bit z 4, bit z 3, bit z 2, bit z 1, bit z 0] = unat (b AND 0x3F)"
proof -
  have "[bit x 7, bit x 6, bit x 5, bit x 4, bit x 3, bit x 2] =
        [bit (drop_bit 18 b) 5, bit (drop_bit 18 b) 4, bit (drop_bit 18 b) 3,
         bit (drop_bit 18 b) 2, bit (drop_bit 18 b) 1, bit (drop_bit 18 b) 0]"
    by (simp add: b_def bit_simps byte_high_bit)
  then show "group_value [bit x 7, bit x 6, bit x 5, bit x 4, bit x 3, bit x 2] = unat (drop_bit 18 b AND 0x3F)"
    by (simp only: group_value_bits)
  have "[bit x 1, bit x 0, bit y 7, bit y 6, bit y 5, bit y 4] =
        [bit (drop_bit 12 b) 5, bit (drop_bit 12 b) 4, bit (drop_bit 12 b) 3,
         bit (drop_bit 12 b) 2, bit (drop_bit 12 b) 1, bit (drop_bit 12 b) 0]"
    by (simp add: b_def bit_simps byte_high_bit)
  then show "group_value [bit x 1, bit x 0, bit y 7, bit y 6, bit y 5, bit y 4] = unat (drop_bit 12 b AND 0x3F)"
    by (simp only: group_value_bits)
  have "[bit y 3, bit y 2, bit y 1, bit y 0, bit z 7, bit z 6] =
        [bit (drop_bit 6 b) 5, bit (drop_bit 6 b) 4, bit (drop_bit 6 b) 3,
         bit (drop_bit 6 b) 2, bit (drop_bit 6 b) 1, bit (drop_bit 6 b) 0]"
    by (simp add: b_def bit_simps byte_high_bit)
  then show "group_value [bit y 3, bit y 2, bit y 1, bit y 0, bit z 7, bit z 6] = unat (drop_bit 6 b AND 0x3F)"
    by (simp only: group_value_bits)
  have "[bit z 5, bit z 4, bit z 3, bit z 2, bit z 1, bit z 0] =
        [bit b 5, bit b 4, bit b 3, bit b 2, bit b 1, bit b 0]"
    by (simp add: b_def bit_simps byte_high_bit)
  then show "group_value [bit z 5, bit z 4, bit z 3, bit z 2, bit z 1, bit z 0] = unat (b AND 0x3F)"
    by (simp only: group_value_bits)
qed

lemma groups_of_two:
  fixes x y :: byte
  defines "b \<equiv> push_bit 16 (ucast x :: uint32) OR push_bit 8 (ucast y)"
  shows "group_value [bit x 7, bit x 6, bit x 5, bit x 4, bit x 3, bit x 2] = unat (drop_bit 18 b AND 0x3F)"
    and "group_value [bit x 1, bit x 0, bit y 7, bit y 6, bit y 5, bit y 4] = unat (drop_bit 12 b AND 0x3F)"
    and "group_value [bit y 3, bit y 2, bit y 1, bit y 0, False, False] = unat (drop_bit 6 b AND 0x3F)"
proof -
  have "[bit x 7, bit x 6, bit x 5, bit x 4, bit x 3, bit x 2] =
        [bit (drop_bit 18 b) 5, bit (drop_bit 18 b) 4, bit (drop_bit 18 b) 3,
         bit (drop_bit 18 b) 2, bit (drop_bit 18 b) 1, bit (drop_bit 18 b) 0]"
    by (simp add: b_def bit_simps byte_high_bit)
  then show "group_value [bit x 7, bit x 6, bit x 5, bit x 4, bit x 3, bit x 2] = unat (drop_bit 18 b AND 0x3F)"
    by (simp only: group_value_bits)
  have "[bit x 1, bit x 0, bit y 7, bit y 6, bit y 5, bit y 4] =
        [bit (drop_bit 12 b) 5, bit (drop_bit 12 b) 4, bit (drop_bit 12 b) 3,
         bit (drop_bit 12 b) 2, bit (drop_bit 12 b) 1, bit (drop_bit 12 b) 0]"
    by (simp add: b_def bit_simps byte_high_bit)
  then show "group_value [bit x 1, bit x 0, bit y 7, bit y 6, bit y 5, bit y 4] = unat (drop_bit 12 b AND 0x3F)"
    by (simp only: group_value_bits)
  have "[bit y 3, bit y 2, bit y 1, bit y 0, False, False] =
        [bit (drop_bit 6 b) 5, bit (drop_bit 6 b) 4, bit (drop_bit 6 b) 3,
         bit (drop_bit 6 b) 2, bit (drop_bit 6 b) 1, bit (drop_bit 6 b) 0]"
    by (simp add: b_def bit_simps byte_high_bit)
  then show "group_value [bit y 3, bit y 2, bit y 1, bit y 0, False, False] = unat (drop_bit 6 b AND 0x3F)"
    by (simp only: group_value_bits)
qed

lemma groups_of_one:
  fixes x :: byte
  defines "b \<equiv> push_bit 16 (ucast x :: uint32)"
  shows "group_value [bit x 7, bit x 6, bit x 5, bit x 4, bit x 3, bit x 2] = unat (drop_bit 18 b AND 0x3F)"
    and "group_value [bit x 1, bit x 0, False, False, False, False] = unat (drop_bit 12 b AND 0x3F)"
proof -
  have "[bit x 7, bit x 6, bit x 5, bit x 4, bit x 3, bit x 2] =
        [bit (drop_bit 18 b) 5, bit (drop_bit 18 b) 4, bit (drop_bit 18 b) 3,
         bit (drop_bit 18 b) 2, bit (drop_bit 18 b) 1, bit (drop_bit 18 b) 0]"
    by (simp add: b_def bit_simps byte_high_bit)
  then show "group_value [bit x 7, bit x 6, bit x 5, bit x 4, bit x 3, bit x 2] = unat (drop_bit 18 b AND 0x3F)"
    by (simp only: group_value_bits)
  have "[bit x 1, bit x 0, False, False, False, False] =
        [bit (drop_bit 12 b) 5, bit (drop_bit 12 b) 4, bit (drop_bit 12 b) 3,
         bit (drop_bit 12 b) 2, bit (drop_bit 12 b) 1, bit (drop_bit 12 b) 0]"
    by (simp add: b_def bit_simps byte_high_bit)
  then show "group_value [bit x 1, bit x 0, False, False, False, False] = unat (drop_bit 12 b AND 0x3F)"
    by (simp only: group_value_bits)
qed



lemma replicate_2: "replicate 2 x = [x, x]"
  by (simp add: numeral_2_eq_2)

lemma replicate_4: "replicate 4 x = [x, x, x, x]"
  by (simp add: numeral_eq_Suc)

lemma rfc4648_two:
  "rfc4648_base64 [x, y] =
     [b64 ! group_value [bit x 7, bit x 6, bit x 5, bit x 4, bit x 3, bit x 2],
      b64 ! group_value [bit x 1, bit x 0, bit y 7, bit y 6, bit y 5, bit y 4],
      b64 ! group_value [bit y 3, bit y 2, bit y 1, bit y 0, False, False],
      CHR ''='']"
  by (simp add: rfc4648_base64_def bits_of_byte_def Let_def replicate_2)

lemma length_encodeBase64: "length (encodeBase64 data) = 4 * ((length data + 2) div 3)"
proof (induction data rule: encodeBase64.induct)
  case (1 x y z rest)
  have "(length (x # y # z # rest) + 2) div 3 = (length rest + 2) div 3 + 1"
    by simp
  with 1 show ?case by (simp add: Let_def)
qed (simp_all add: Let_def)


lemma rfc4648_three:
  "rfc4648_base64 (x # y # z # rest) =
     [b64 ! group_value [bit x 7, bit x 6, bit x 5, bit x 4, bit x 3, bit x 2],
      b64 ! group_value [bit x 1, bit x 0, bit y 7, bit y 6, bit y 5, bit y 4],
      b64 ! group_value [bit y 3, bit y 2, bit y 1, bit y 0, bit z 7, bit z 6],
      b64 ! group_value [bit z 5, bit z 4, bit z 3, bit z 2, bit z 1, bit z 0]]
     @ rfc4648_base64 rest"
  by (simp add: rfc4648_base64_def bits_of_byte_def Let_def)



lemma rfc4648_one:
  "rfc4648_base64 [x] =
     [b64 ! group_value [bit x 7, bit x 6, bit x 5, bit x 4, bit x 3, bit x 2],
      b64 ! group_value [bit x 1, bit x 0, False, False, False, False],
      CHR ''='', CHR ''='']"
  by (simp add: rfc4648_base64_def bits_of_byte_def Let_def replicate_2 replicate_4)

lemma rfc4648_empty: "rfc4648_base64 [] = []"
  by (simp add: rfc4648_base64_def)

lemma encodeBase64_is_rfc4648: "encodeBase64 data = rfc4648_base64 data"
proof (induction data rule: encodeBase64.induct)
  case (1 x y z rest)
  then show ?case
    by (simp only: encodeBase64.simps rfc4648_three Let_def
        groups_of_three [where x = x and y = y and z = z])
next
  case (2 x y)
  show ?case
    by (simp only: encodeBase64.simps rfc4648_two Let_def
        groups_of_two [where x = x and y = y])
next
  case (3 x)
  show ?case
    by (simp only: encodeBase64.simps rfc4648_one Let_def groups_of_one [where x = x])
next
  case 4
  show ?case by (simp add: rfc4648_empty)
qed

lemma b64_index_not_pad:
  fixes w :: uint32
  shows "b64 ! unat (w AND 0x3F) \<noteq> CHR ''=''"
proof -
  have "w AND 0x3F \<le> 0x3F" by (rule word_and_le1)
  then have "unat (w AND 0x3F) < length b64"
    by (simp add: word_le_nat_alt b64_def)
  then have "b64 ! unat (w AND 0x3F) \<in> set b64" by (rule nth_mem)
  moreover have "CHR ''='' \<notin> set b64" by (simp add: b64_def)
  ultimately show ?thesis by metis
qed

lemma encodeBase64_one_pad:
  "length data mod 3 = 2 \<Longrightarrow>
     \<exists>body. encodeBase64 data = body @ ''='' \<and> CHR ''='' \<notin> set body"
proof (induction data rule: encodeBase64.induct)
  case (1 x y z rest)
  from 1 obtain body where body: "encodeBase64 rest = body @ ''=''" "CHR ''='' \<notin> set body"
    by auto
  define b where "b = push_bit 16 (ucast x :: uint32) OR push_bit 8 (ucast y) OR ucast z"
  let ?quad = "[b64 ! unat (drop_bit 18 b AND 0x3F), b64 ! unat (drop_bit 12 b AND 0x3F),
          b64 ! unat (drop_bit 6 b AND 0x3F), b64 ! unat (b AND 0x3F)]"
  have "encodeBase64 (x # y # z # rest) = (?quad @ body) @ ''=''"
    by (simp add: body b_def Let_def)
  moreover have "CHR ''='' \<notin> set (?quad @ body)"
    using body(2) b64_index_not_pad by (simp add: eq_commute)
  ultimately show ?case by blast
next
  case (2 x y)
  define b where "b = push_bit 16 (ucast x :: uint32) OR push_bit 8 (ucast y)"
  let ?tri = "[b64 ! unat (drop_bit 18 b AND 0x3F), b64 ! unat (drop_bit 12 b AND 0x3F),
          b64 ! unat (drop_bit 6 b AND 0x3F)]"
  have "encodeBase64 [x, y] = ?tri @ ''=''"
    by (simp add: b_def Let_def)
  moreover have "CHR ''='' \<notin> set ?tri"
    using b64_index_not_pad by (simp add: eq_commute)
  ultimately show ?case by blast
next
  case (3 x)
  then show ?case by simp
next
  case 4
  then show ?case by simp
qed

text \<open>
  C8. The hand-written \<open>encodeBase64\<close> is base64 as RFC 4648 defines it, for every
  input; \<open>generateQRData\<close> is \<open>2@\<close>, the reference, a comma, the base64 of the key, a
  comma and the session identifier; and the base64 of a 32-byte key has 44 characters, of
  which exactly the last is \<open>=\<close>.
\<close>

theorem qr_string_base64:
  "encodeBase64 data = rfc4648_base64 data
   \<and> generateQRData ref pub sessionID
       = ''2@'' @ ref @ '','' @ rfc4648_base64 pub @ '','' @ sessionID
   \<and> (length pub = 32 \<longrightarrow>
        length (encodeBase64 pub) = 44
        \<and> (\<exists>body. encodeBase64 pub = body @ ''='' \<and> CHR ''='' \<notin> set body))"
proof -
  have "length (encodeBase64 pub) = 44
        \<and> (\<exists>body. encodeBase64 pub = body @ ''='' \<and> CHR ''='' \<notin> set body)"
    if "length pub = 32"
    using that encodeBase64_one_pad [of pub] by (simp add: length_encodeBase64)
  then show ?thesis
    by (simp add: encodeBase64_is_rfc4648 generateQRData_def)
qed

lemma encodeBase64_demo:
  "encodeBase64 (replicate 32 0x05) = ''BQUFBQUFBQUFBQUFBQUFBQUFBQUFBQUFBQUFBQUFBQU=''"
  by code_simp

theorem qr_string_base64_witness:
  "length (replicate 32 (0x05 :: byte)) = 32
   \<and> generateQRData ''1700000000000'' (replicate 32 0x05) ''s1''
       = ''2@1700000000000,BQUFBQUFBQUFBQUFBQUFBQUFBQUFBQUFBQUFBQUFBQU=,s1''
   \<and> rfc4648_base64 (replicate 32 0x05) = ''BQUFBQUFBQUFBQUFBQUFBQUFBQUFBQUFBQUFBQUFBQU=''
   \<and> length (encodeBase64 (replicate 32 0x05)) = 44"
proof -
  have len: "length (replicate 32 (0x05 :: byte)) = 32" by simp
  have enc: "encodeBase64 (replicate 32 0x05) = rfc4648_base64 (replicate 32 0x05)"
    using qr_string_base64 [of "replicate 32 0x05" "''1700000000000''" "replicate 32 0x05" "''s1''"]
    by simp
  have "rfc4648_base64 (replicate 32 0x05) = ''BQUFBQUFBQUFBQUFBQUFBQUFBQUFBQUFBQUFBQUFBQU=''"
    using enc encodeBase64_demo by simp
  then show ?thesis
    using len encodeBase64_demo by (simp add: generateQRData_def)
qed

end
